theory Spec2Isabelle
  imports Main
begin

section \<open>The assembler of betty (src/assembler.js)\<close>

text \<open>
  The assembler takes the instruction stream of the parser and builds the output object.
  It runs in two passes: a pre-processing pass over the raw instructions
  (the first loop of \<open>assemble\<close>) and a dispatch loop that calls one method per
  processed instruction.

  Strings are lists of characters, one character per code unit below 256.
  The key and the value of an instruction are strings; an absent field (JavaScript
  \<open>undefined\<close>) is \<open>None\<close>. The instruction objects of a stream are distinct
  objects.
\<close>

subsection \<open>Strings as JavaScript uses them here\<close>

text \<open>\<open>String.prototype.trim\<close>: white space and line terminators among the
  code units below 256 are TAB, LF, VT, FF, CR, SP and NBSP.\<close>

definition is_ws :: "char \<Rightarrow> bool" where
  "is_ws c = (c = CHR 0x09 \<or> c = CHR 0x0A \<or> c = CHR 0x0B \<or> c = CHR 0x0C \<or>
              c = CHR 0x0D \<or> c = CHR 0x20 \<or> c = CHR 0xA0)"

definition trim :: "string \<Rightarrow> string" where
  "trim s = rev (dropWhile is_ws (rev (dropWhile is_ws s)))"

text \<open>\<open>s.split(c)\<close> for a one-character separator: always at least one piece.\<close>

fun split_on :: "char \<Rightarrow> string \<Rightarrow> string list" where
  "split_on c [] = [[]]"
| "split_on c (x # xs) =
     (if x = c then [] # split_on c xs
      else (case split_on c xs of
              [] \<Rightarrow> [[x]]
            | w # ws \<Rightarrow> (x # w) # ws))"

text \<open>String conversion of a possibly absent field, as \<open>+\<close> with a string and a
  template literal do it.\<close>

definition js_str :: "string option \<Rightarrow> string" where
  "js_str v = (case v of None \<Rightarrow> ''undefined'' | Some s \<Rightarrow> s)"

text \<open>\<open>key + value\<close>: string concatenation as soon as one operand is a string;
  \<open>undefined + undefined\<close> is the number NaN, here \<open>None\<close>.\<close>

definition js_add :: "string option \<Rightarrow> string option \<Rightarrow> string option" where
  "js_add a b = (if a = None \<and> b = None then None else Some (js_str a @ js_str b))"

text \<open>What an element contributes to \<open>buffer.join("")\<close>: \<open>undefined\<close>
  contributes the empty string, NaN the text NaN.\<close>

definition join_field :: "string option \<Rightarrow> string" where
  "join_field v = (case v of None \<Rightarrow> [] | Some s \<Rightarrow> s)"

definition join_sum :: "string option \<Rightarrow> string" where
  "join_sum v = (case v of None \<Rightarrow> ''NaN'' | Some s \<Rightarrow> s)"

subsection \<open>Instructions and options\<close>

text \<open>An instruction is an object with the fields \<open>type\<close>, \<open>key\<close> and
  \<open>value\<close>; the kind is the string the parser wrote, whatever it is.\<close>

record instr =
  itype :: string
  key :: "string option"
  ivalue :: "string option"

datatype log_entry = Line string | Dump instr

type_synonym trace = "log_entry list"

subsection \<open>The pre-processing pass\<close>

text \<open>
  \<open>processed\<close> is the output array. \<open>lastValue\<close> aliases an element of
  \<open>processed\<close> (the instruction object is pushed and remembered), so it is the index
  of that element: the \<open>flush\<close> case mutates the object through it.
  \<open>buffer\<close> holds what each pushed element contributes to \<open>buffer.join("")\<close>;
  its length is the length of the JavaScript array.
\<close>

record pstate =
  processed :: "instr list"
  lastValue :: "nat option"
  buffer :: "string list"

definition is_line_terminator :: "char \<Rightarrow> bool" where
  "is_line_terminator c = (c = CHR 0x0A \<or> c = CHR 0x0D)"

text \<open>\<open>merged.replace(/^\\/m, "")\<close>: the first backslash that stands at the start
  of a line is removed; the flag says whether the position is a line start.\<close>

fun strip_backslash :: "bool \<Rightarrow> string \<Rightarrow> string" where
  "strip_backslash b [] = []"
| "strip_backslash b (c # cs) =
     (if b \<and> c = CHR 0x5C then cs else c # strip_backslash (is_line_terminator c) cs)"

definition mergeBuffer :: "string list \<Rightarrow> string" where
  "mergeBuffer buf = strip_backslash True (concat buf)"

definition new_buffer :: "string \<Rightarrow> instr" where
  "new_buffer merged = \<lparr>itype = ''buffer'', key = None, ivalue = Some merged\<rparr>"

definition anchor_is_simple :: "pstate \<Rightarrow> bool" where
  "anchor_is_simple st =
     (case lastValue st of None \<Rightarrow> False
      | Some j \<Rightarrow> itype (processed st ! j) = ''simple'')"

text \<open>The body of \<open>case "buffer"\<close> after \<open>buffer.push(value)\<close>: the while loop
  that swallows the buffer instructions that follow. It returns the buffer and the
  instructions left.\<close>

fun absorb :: "string list \<Rightarrow> instr list \<Rightarrow> string list \<times> instr list" where
  "absorb buf [] = (buf, [])"
| "absorb buf (n # rest) =
     (if itype n = ''buffer'' then absorb (buf @ [join_field (ivalue n)]) rest
      else (buf, n # rest))"

lemma absorb_length [termination_simp]: "length (snd (absorb buf rest)) \<le> length rest"
  by (induction rest arbitrary: buf) (auto intro: le_SucI)

text \<open>Pushing the merged buffer as a new instruction when it is not blank: the
  \<open>value\<close> case, the four structural cases and the end of the stream.\<close>

definition push_merged :: "pstate \<Rightarrow> instr list" where
  "push_merged st =
     (let merged = mergeBuffer (buffer st)
      in if trim merged \<noteq> [] then processed st @ [new_buffer merged] else processed st)"

definition flush_case :: "pstate \<Rightarrow> pstate" where
  "flush_case st =
     (if buffer st \<noteq> [] then
        (let merged = mergeBuffer (buffer st)
         in case lastValue st of
              Some j \<Rightarrow>
                if trim merged \<noteq> [] then
                  st\<lparr>processed := (processed st)
                        [j := (processed st ! j)
                                \<lparr>ivalue := Some (js_str (ivalue (processed st ! j)) @ merged)\<rparr>],
                     buffer := []\<rparr>
                else st\<lparr>processed := processed st @ [new_buffer merged], buffer := []\<rparr>
            | None \<Rightarrow> st\<lparr>processed := processed st @ [new_buffer merged], buffer := []\<rparr>)
      else st\<lparr>buffer := []\<rparr>)"

definition structural :: "string \<Rightarrow> bool" where
  "structural t = (t = ''object'' \<or> t = ''array'' \<or> t = ''closeObject'' \<or> t = ''closeArray'')"

text \<open>One instruction of the loop without its trace: the cases of the \<open>switch\<close> in
  the source's order. The \<open>buffer\<close> case pushes one value; the while loop of the source
  is \<open>absorb\<close>, and \<open>pre_loop\<close> below runs it as the source does.\<close>

definition simple_passes :: "pstate \<Rightarrow> bool" where
  "simple_passes st = (lastValue st = None \<or> anchor_is_simple st)"

definition pre_step :: "pstate \<Rightarrow> instr \<Rightarrow> pstate" where
  "pre_step st i =
     (if itype i = ''simple'' then
        (if simple_passes st then
           st\<lparr>buffer := [], processed := processed st @ [i],
              lastValue := Some (length (processed st))\<rparr>
         else st\<lparr>buffer := buffer st @ [join_sum (js_add (key i) (ivalue i))]\<rparr>)
      else if itype i = ''buffer'' then
        st\<lparr>buffer := buffer st @ [join_field (ivalue i)]\<rparr>
      else if itype i = ''value'' then
        (if anchor_is_simple st then
           st\<lparr>buffer := buffer st @ [js_str (key i) @ '':'' @ js_str (ivalue i)]\<rparr>
         else
           st\<lparr>processed := push_merged st @ [i],
              lastValue := Some (length (push_merged st)),
              buffer := []\<rparr>)
      else if itype i = ''flush'' then flush_case st
      else if structural (itype i) then
        st\<lparr>processed := push_merged st @ [i], lastValue := None, buffer := []\<rparr>
      else
        st\<lparr>processed := processed st @ [i], lastValue := None\<rparr>)"


text \<open>\<open>log\<close> prints only when the \<open>verbose\<close> option is set; newlines and tabs are
  escaped. \<open>console.log(i)\<close> of an instruction object is a \<open>Dump\<close> entry.\<close>

fun replace_char :: "char \<Rightarrow> string \<Rightarrow> string \<Rightarrow> string" where
  "replace_char c r [] = []"
| "replace_char c r (x # xs) = (if x = c then r @ replace_char c r xs else x # replace_char c r xs)"

definition log :: "bool \<Rightarrow> string \<Rightarrow> trace \<Rightarrow> trace" where
  "log verbose msg tr =
     (if \<not> verbose then tr
      else tr @ [Line (replace_char (CHR 0x09) [CHR 0x5C, CHR ''t'']
                        (replace_char (CHR 0x0A) [CHR 0x5C, CHR ''n''] msg))])"

definition dump_all :: "bool \<Rightarrow> instr list \<Rightarrow> trace \<Rightarrow> trace" where
  "dump_all verbose is tr = (if verbose then tr @ map Dump is else tr)"

text \<open>The trace of one instruction that is handled by \<open>pre_step\<close> alone.\<close>

definition step_trace :: "bool \<Rightarrow> pstate \<Rightarrow> instr \<Rightarrow> trace \<Rightarrow> trace" where
  "step_trace verbose st i tr =
     (if itype i = ''value'' \<and> \<not> anchor_is_simple st then
        log verbose (''Value encountered: '' @ js_str (key i)) tr
      else if structural (itype i) then
        log verbose (''Encountered '' @ itype i @ '' ('' @ js_str (key i) @ ''), clearing buffer'') tr
      else tr)"

text \<open>The \<open>for\<close> loop over the raw instructions. A demoted \<open>simple\<close> falls through
  into \<open>case "buffer"\<close> with \<open>value = key + value\<close>; the buffer case pushes and then
  swallows the buffer instructions that follow, advancing the index past them.\<close>

function pre_loop :: "bool \<Rightarrow> pstate \<Rightarrow> trace \<Rightarrow> instr list \<Rightarrow> pstate \<times> trace" where
  "pre_loop verbose st tr [] = (st, tr)"
| "pre_loop verbose st tr (i # rest) =
     (if itype i = ''simple'' \<and> \<not> simple_passes st then
        (let tr1 = log verbose ''Simple item being ignored'' tr;
             tr2 = log verbose ''Merging buffer instructions...'' tr1;
             run = absorb (buffer st @ [join_sum (js_add (key i) (ivalue i))]) rest
         in pre_loop verbose (st\<lparr>buffer := fst run\<rparr>) tr2 (snd run))
      else if itype i = ''buffer'' then
        (let tr1 = log verbose ''Merging buffer instructions...'' tr;
             run = absorb (buffer st @ [join_field (ivalue i)]) rest
         in pre_loop verbose (st\<lparr>buffer := fst run\<rparr>) tr1 (snd run))
      else pre_loop verbose (pre_step st i) (step_trace verbose st i tr) rest)"
  by pat_completeness auto
termination
  by (relation "measure (\<lambda>(v, st, tr, is). length is)") (auto simp: absorb_length le_imp_less_Suc)

text \<open>After the loop: the dangling buffer is merged and pushed when it is not blank.\<close>

definition pre_finish :: "bool \<Rightarrow> pstate \<times> trace \<Rightarrow> pstate \<times> trace" where
  "pre_finish verbose r =
     (fst r\<lparr>processed := push_merged (fst r)\<rparr>,
      log verbose ''Clearing out dangling buffer items'' (snd r))"

definition pre_init :: pstate where
  "pre_init = \<lparr>processed = [], lastValue = None, buffer = []\<rparr>"

definition preprocess_run :: "bool \<Rightarrow> instr list \<Rightarrow> pstate \<times> trace" where
  "preprocess_run verbose is =
     pre_finish verbose
       (pre_loop verbose pre_init
          (dump_all verbose is (log verbose ''Raw instructions stream'' [])) is)"

text \<open>The processed instruction stream: what the second loop of \<open>assemble\<close> reads.\<close>

definition preprocess :: "bool \<Rightarrow> instr list \<Rightarrow> instr list" where
  "preprocess verbose is = processed (fst (preprocess_run verbose is))"


subsection \<open>Values, objects and arrays\<close>

text \<open>
  The output tree is built in place and the context stack holds references into it, so
  objects and arrays live in a store: a list of nodes, a reference being an index.
  A new object is appended to the store. An array carries the metadata that
  \<open>assignType\<close> sets under the \<open>TYPE\<close> symbol (absent until assigned), its
  elements, and like every JavaScript object its named properties.
\<close>

datatype val = Undefined | Str string | Ref nat

datatype subtype = Standard | Simple | Freeform

datatype node =
    Obj "(string \<times> val) list"
  | Arr "subtype option" "val list" "(string \<times> val) list"

type_synonym heap = "node list"

datatype type_error =
    Not_a_function
  | In_on_primitive
  | Read_of_undefined
  | Write_to_primitive
  | Redefine_property

text \<open>\<open>OutOfModel\<close> marks behaviour of the JavaScript runtime that this development
  does not describe: property names that the built-in prototypes resolve, index and
  length properties of arrays and strings, references a hook made up, and dispatch to
  a member of the assembler that is not an instruction handler. The source does not
  throw there; the model stops and says so.\<close>

datatype error = TypeError type_error | OutOfModel

definition ebind :: "error + 'a \<Rightarrow> ('a \<Rightarrow> error + 'b) \<Rightarrow> error + 'b" where
  "ebind m f = (case m of Inl e \<Rightarrow> Inl e | Inr x \<Rightarrow> f x)"

record options =
  verbose :: bool
  onFieldName :: "string \<Rightarrow> string"
  onValue :: "val \<Rightarrow> string \<Rightarrow> val"

definition truthy :: "val \<Rightarrow> bool" where
  "truthy v = (case v of Undefined \<Rightarrow> False | Str s \<Rightarrow> s \<noteq> [] | Ref a \<Rightarrow> True)"

text \<open>\<open>typeof v == "object"\<close> and \<open>typeof v == "string"\<close>.\<close>

definition is_object :: "val \<Rightarrow> bool" where
  "is_object v = (case v of Ref a \<Rightarrow> True | _ \<Rightarrow> False)"

definition trim_if_string :: "val \<Rightarrow> val" where
  "trim_if_string v = (case v of Str s \<Rightarrow> Str (trim s) | _ \<Rightarrow> v)"

subsubsection \<open>Names the runtime resolves by itself\<close>

definition object_members :: "string list" where
  "object_members =
     [''constructor'', ''__proto__'', ''hasOwnProperty'', ''isPrototypeOf'',
      ''propertyIsEnumerable'', ''toLocaleString'', ''toString'', ''valueOf'',
      ''__defineGetter__'', ''__defineSetter__'', ''__lookupGetter__'', ''__lookupSetter__'']"

definition array_members :: "string list" where
  "array_members =
     [''length'', ''at'', ''concat'', ''copyWithin'', ''entries'', ''every'', ''fill'',
      ''filter'', ''find'', ''findIndex'', ''findLast'', ''findLastIndex'', ''flat'',
      ''flatMap'', ''forEach'', ''group'', ''groupToMap'', ''includes'', ''indexOf'',
      ''join'', ''keys'', ''lastIndexOf'', ''map'', ''pop'', ''push'', ''reduce'',
      ''reduceRight'', ''reverse'', ''shift'', ''slice'', ''some'', ''sort'', ''splice'',
      ''toReversed'', ''toSorted'', ''toSpliced'', ''unshift'', ''values'', ''with'']"

definition string_members :: "string list" where
  "string_members =
     [''length'', ''anchor'', ''at'', ''big'', ''blink'', ''bold'', ''charAt'',
      ''charCodeAt'', ''codePointAt'', ''concat'', ''endsWith'', ''fixed'', ''fontcolor'',
      ''fontsize'', ''includes'', ''indexOf'', ''isWellFormed'', ''italics'',
      ''lastIndexOf'', ''link'', ''localeCompare'', ''match'', ''matchAll'', ''normalize'',
      ''padEnd'', ''padStart'', ''repeat'', ''replace'', ''replaceAll'', ''search'',
      ''slice'', ''small'', ''split'', ''startsWith'', ''strike'', ''sub'', ''substr'',
      ''substring'', ''sup'', ''toLocaleLowerCase'', ''toLocaleUpperCase'',
      ''toLowerCase'', ''toUpperCase'', ''toWellFormed'', ''trim'', ''trimEnd'',
      ''trimLeft'', ''trimRight'', ''trimStart'']"

definition is_digit :: "char \<Rightarrow> bool" where
  "is_digit c = (c \<in> set ''0123456789'')"

definition index_like :: "string \<Rightarrow> bool" where
  "index_like k = (k \<noteq> [] \<and> list_all is_digit k)"

definition reserved_in :: "node \<Rightarrow> string \<Rightarrow> bool" where
  "reserved_in n k =
     (case n of
        Obj ps \<Rightarrow> k \<in> set object_members
      | Arr t es ps \<Rightarrow>
          k \<in> set object_members \<or> k \<in> set array_members \<or> index_like k)"

definition reserved_in_string :: "string \<Rightarrow> bool" where
  "reserved_in_string k =
     (k \<in> set object_members \<or> k \<in> set string_members \<or> index_like k)"

subsubsection \<open>Property access\<close>

fun put :: "string \<Rightarrow> val \<Rightarrow> (string \<times> val) list \<Rightarrow> (string \<times> val) list" where
  "put k v [] = [(k, v)]"
| "put k v (p # ps) = (if fst p = k then (k, v) # ps else p # put k v ps)"

definition props_of :: "node \<Rightarrow> (string \<times> val) list" where
  "props_of n = (case n of Obj ps \<Rightarrow> ps | Arr t es ps \<Rightarrow> ps)"

definition with_props :: "node \<Rightarrow> (string \<times> val) list \<Rightarrow> node" where
  "with_props n ps = (case n of Obj qs \<Rightarrow> Obj ps | Arr t es qs \<Rightarrow> Arr t es ps)"

definition node_at :: "heap \<Rightarrow> nat \<Rightarrow> error + node" where
  "node_at h a = (if a < length h then Inr (h ! a) else Inl OutOfModel)"

definition alloc :: "heap \<Rightarrow> node \<Rightarrow> heap \<times> val" where
  "alloc h n = (h @ [n], Ref (length h))"

text \<open>\<open>k in x\<close>: a TypeError on a primitive.\<close>

definition has_prop :: "heap \<Rightarrow> val \<Rightarrow> string \<Rightarrow> error + bool" where
  "has_prop h x k =
     (case x of
        Ref a \<Rightarrow>
          ebind (node_at h a) (\<lambda>n.
            if reserved_in n k then Inl OutOfModel
            else Inr (map_of (props_of n) k \<noteq> None))
      | _ \<Rightarrow> Inl (TypeError In_on_primitive))"

text \<open>\<open>x[k]\<close>: \<open>undefined\<close> for a name that is not there, also on a string.\<close>

definition get_prop :: "heap \<Rightarrow> val \<Rightarrow> string \<Rightarrow> error + val" where
  "get_prop h x k =
     (case x of
        Ref a \<Rightarrow>
          ebind (node_at h a) (\<lambda>n.
            if reserved_in n k then Inl OutOfModel
            else Inr (case map_of (props_of n) k of None \<Rightarrow> Undefined | Some v \<Rightarrow> v))
      | Str s \<Rightarrow> if reserved_in_string k then Inl OutOfModel else Inr Undefined
      | Undefined \<Rightarrow> Inl (TypeError Read_of_undefined))"

text \<open>\<open>x[k] = v\<close>: class bodies are strict code, so the assignment to a property of
  a primitive throws.\<close>

definition set_prop :: "heap \<Rightarrow> val \<Rightarrow> string \<Rightarrow> val \<Rightarrow> error + heap" where
  "set_prop h x k v =
     (case x of
        Ref a \<Rightarrow>
          ebind (node_at h a) (\<lambda>n.
            if reserved_in n k then Inl OutOfModel
            else Inr (h[a := with_props n (put k v (props_of n))]))
      | _ \<Rightarrow> Inl (TypeError Write_to_primitive))"

text \<open>\<open>x instanceof Array\<close>, \<open>x[TYPE]\<close>, \<open>x.push(v)\<close> and
  \<open>x[x.length - 1]\<close>.\<close>

definition is_array :: "heap \<Rightarrow> val \<Rightarrow> error + bool" where
  "is_array h x =
     (case x of
        Ref a \<Rightarrow> ebind (node_at h a) (\<lambda>n. Inr (case n of Arr t es ps \<Rightarrow> True | Obj ps \<Rightarrow> False))
      | _ \<Rightarrow> Inr False)"

definition get_type :: "heap \<Rightarrow> val \<Rightarrow> error + subtype option" where
  "get_type h x =
     (case x of
        Ref a \<Rightarrow> ebind (node_at h a) (\<lambda>n. Inr (case n of Arr t es ps \<Rightarrow> t | Obj ps \<Rightarrow> None))
      | Str s \<Rightarrow> Inr None
      | Undefined \<Rightarrow> Inl (TypeError Read_of_undefined))"

definition push_elem :: "heap \<Rightarrow> val \<Rightarrow> val \<Rightarrow> error + heap" where
  "push_elem h x v =
     (case x of
        Ref a \<Rightarrow>
          ebind (node_at h a) (\<lambda>n.
            case n of
              Arr t es ps \<Rightarrow> Inr (h[a := Arr t (es @ [v]) ps])
            | Obj ps \<Rightarrow> Inl (TypeError Not_a_function))
      | Str s \<Rightarrow> Inl (TypeError Not_a_function)
      | Undefined \<Rightarrow> Inl (TypeError Read_of_undefined))"

definition last_elem :: "heap \<Rightarrow> val \<Rightarrow> error + val" where
  "last_elem h x =
     (case x of
        Ref a \<Rightarrow>
          ebind (node_at h a) (\<lambda>n.
            case n of
              Arr t es ps \<Rightarrow> Inr (if es = [] then Undefined else last es)
            | Obj ps \<Rightarrow> Inl OutOfModel)
      | _ \<Rightarrow> Inl OutOfModel)"

text \<open>\<open>assignType\<close> defines the \<open>TYPE\<close> property as not writable and not
  configurable: defining it again with the same value is accepted, with another value
  \<open>Object.defineProperty\<close> throws a TypeError.\<close>

definition assignType :: "heap \<Rightarrow> val \<Rightarrow> subtype \<Rightarrow> error + heap" where
  "assignType h x t =
     (case x of
        Ref a \<Rightarrow>
          ebind (node_at h a) (\<lambda>n.
            case n of
              Arr old es ps \<Rightarrow>
                if old = None \<or> old = Some t then Inr (h[a := Arr (Some t) es ps])
                else Inl (TypeError Redefine_property)
            | Obj ps \<Rightarrow> Inl OutOfModel)
      | _ \<Rightarrow> Inl (TypeError Write_to_primitive))"


subsection \<open>The assembler object\<close>

text \<open>The fields of the assembler that change: the store with the output tree, whose
  root object is at index 0, and the context stack, whose top is its last element. The
  fields \<open>instructions\<close> and \<open>index\<close> are never read.\<close>

record bstate =
  heap :: heap
  stack :: "val list"

definition root :: val where
  "root = Ref 0"

definition init :: bstate where
  "init = \<lparr>heap = [Obj []], stack = [root]\<rparr>"

text \<open>The getter \<open>top\<close> of the source is \<open>top_scope\<close> here:
  \<open>this.stack[this.stack.length - 1]\<close> is \<open>undefined\<close> on an empty stack.\<close>

definition top_scope :: "bstate \<Rightarrow> val" where
  "top_scope s = (if stack s = [] then Undefined else last (stack s))"

definition pushContext :: "val \<Rightarrow> bstate \<Rightarrow> bstate" where
  "pushContext scope s = s\<lparr>stack := stack s @ [scope]\<rparr>"

definition popContext :: "bstate \<Rightarrow> val \<times> bstate" where
  "popContext s =
     (let scope = top_scope s;
          st = butlast (stack s);
          s' = s\<lparr>stack := (if st = [] then [root] else st)\<rparr>
      in (if truthy scope then scope else root, s'))"

definition reset :: "val option \<Rightarrow> bstate \<Rightarrow> bstate" where
  "reset scope s =
     (case scope of
        None \<Rightarrow> s\<lparr>stack := [root]\<rparr>
      | Some v \<Rightarrow> if truthy v then s\<lparr>stack := [root, v]\<rparr> else s\<lparr>stack := [root]\<rparr>)"

definition getTarget :: "string option \<Rightarrow> bstate \<Rightarrow> error + val \<times> bstate" where
  "getTarget k s =
     (case k of
        None \<Rightarrow> Inl (TypeError Read_of_undefined)
      | Some ks \<Rightarrow>
          if ks \<noteq> [] \<and> hd ks = CHR ''.'' then Inr (top_scope s, s)
          else Inr (root, reset None s))"

subsubsection \<open>Keypaths\<close>

definition normalizeKeypath :: "options \<Rightarrow> string option \<Rightarrow> error + string list" where
  "normalizeKeypath opts keypath =
     (case keypath of
        None \<Rightarrow> Inl (TypeError Read_of_undefined)
      | Some ks \<Rightarrow> Inr (map (onFieldName opts) (filter (\<lambda>seg. seg \<noteq> []) (split_on (CHR ''.'') ks))))"

text \<open>The loop of \<open>getPath\<close> over the segments before the terminal one: \<open>None\<close> is the
  early \<open>return undefined\<close>, \<open>Some branch\<close> the branch reached.\<close>

fun getPath_loop :: "heap \<Rightarrow> val \<Rightarrow> string list \<Rightarrow> error + val option" where
  "getPath_loop h branch [] = Inr (Some branch)"
| "getPath_loop h branch (k # ks) =
     ebind (has_prop h branch k) (\<lambda>present.
       if \<not> present then Inr None
       else ebind (get_prop h branch k) (\<lambda>next. getPath_loop h next ks))"

text \<open>\<open>keypath.pop()\<close> of an empty path is \<open>undefined\<close>, and \<open>branch[undefined]\<close>
  reads the property named undefined.\<close>

definition pop_segment :: "string list \<Rightarrow> string option" where
  "pop_segment kp = (if kp = [] then None else Some (last kp))"

definition getPath :: "options \<Rightarrow> heap \<Rightarrow> val \<Rightarrow> string option \<Rightarrow> error + val" where
  "getPath opts h obj keypath =
     ebind (normalizeKeypath opts keypath) (\<lambda>kp.
       let terminal = pop_segment kp in
       ebind (getPath_loop h obj (butlast kp)) (\<lambda>r.
         case r of
           None \<Rightarrow> Inr Undefined
         | Some branch \<Rightarrow>
             if truthy branch then get_prop h branch (js_str terminal) else Inr branch))"

text \<open>The loop of \<open>setPath\<close>: a segment that is missing, or whose value is not an
  object, gets a new empty object.\<close>

fun setPath_loop :: "heap \<Rightarrow> val \<Rightarrow> string list \<Rightarrow> error + heap \<times> val" where
  "setPath_loop h branch [] = Inr (h, branch)"
| "setPath_loop h branch (k # ks) =
     ebind (has_prop h branch k) (\<lambda>present.
       ebind (if present then ebind (get_prop h branch k) (\<lambda>v. Inr (\<not> is_object v))
              else Inr True) (\<lambda>replace.
         ebind (if replace then
                  (let (h1, fresh) = alloc h (Obj []) in set_prop h1 branch k fresh)
                else Inr h) (\<lambda>h'.
           ebind (get_prop h' branch k) (\<lambda>next. setPath_loop h' next ks))))"

definition setPath ::
  "options \<Rightarrow> heap \<Rightarrow> val \<Rightarrow> string option \<Rightarrow> val \<Rightarrow> error + heap \<times> val" where
  "setPath opts h obj keypath v =
     ebind (normalizeKeypath opts keypath) (\<lambda>kp.
       case pop_segment kp of
         None \<Rightarrow> Inl (TypeError Read_of_undefined)
       | Some seg \<Rightarrow>
           let terminal = filter (\<lambda>c. c \<noteq> CHR ''+'') seg in
           ebind (setPath_loop h obj (butlast kp)) (\<lambda>(h', branch).
             ebind (set_prop h' branch terminal (onValue opts (trim_if_string v) terminal))
               (\<lambda>h''. Inr (h'', branch))))"

subsubsection \<open>Adding values to a target\<close>

text \<open>\<open>key.replace(/^[\.+]*/, "")\<close>.\<close>

definition strip_prefix :: "string \<Rightarrow> string" where
  "strip_prefix k = dropWhile (\<lambda>c. c = CHR ''.'' \<or> c = CHR ''+'') k"

definition new_record :: "heap \<Rightarrow> val \<Rightarrow> val \<Rightarrow> heap \<times> val" where
  "new_record h ty v = alloc h (Obj [(''type'', ty), (''value'', v)])"

definition addToArray ::
  "options \<Rightarrow> heap \<Rightarrow> val \<Rightarrow> string option \<Rightarrow> val \<Rightarrow> error + heap" where
  "addToArray opts h target k v =
     ebind (get_type h target) (\<lambda>t.
       if t = Some Freeform then
         (case k of
            None \<Rightarrow> Inl (TypeError Read_of_undefined)
          | Some ks \<Rightarrow>
              (let (h1, r) = new_record h (Str (strip_prefix ks)) (trim_if_string v)
               in push_elem h1 target r))
       else if t = Some Simple then Inr h
       else
         ebind (if t = None then assignType h target Standard else Inr h) (\<lambda>h1.
           ebind (last_elem h1 target) (\<lambda>lst.
             ebind (if \<not> truthy lst then Inr True
                    else ebind (getPath opts h1 lst k) (\<lambda>found. Inr (truthy found))) (\<lambda>fresh.
               ebind (if fresh then
                        (let (h2, elem) = alloc h1 (Obj [])
                         in ebind (push_elem h2 target elem) (\<lambda>h3. Inr (h3, elem)))
                      else Inr (h1, lst)) (\<lambda>(h4, lst').
                 ebind (setPath opts h4 lst' k (trim_if_string v)) (\<lambda>(h5, b). Inr h5))))))"

definition append ::
  "options \<Rightarrow> heap \<Rightarrow> val \<Rightarrow> string option \<Rightarrow> val \<Rightarrow> error + heap" where
  "append opts h target k v =
     ebind (is_array h target) (\<lambda>arr.
       if arr then addToArray opts h target k v
       else ebind (setPath opts h target k (trim_if_string v)) (\<lambda>(h', b). Inr h'))"


subsubsection \<open>The instruction handlers\<close>

text \<open>The handlers \<open>value\<close> and \<open>buffer\<close> of the source are \<open>value_instr\<close> and
  \<open>buffer_instr\<close> here. Each takes the key and the value of the instruction.\<close>

definition closeObject :: "bstate \<Rightarrow> error + bstate" where
  "closeObject s = Inr (snd (popContext s))"

text \<open>The while loop of \<open>closeArray\<close>: pop while the top is neither an array nor the
  root.\<close>

function closeArray_loop :: "bstate \<Rightarrow> error + bstate" where
  "closeArray_loop s =
     (case is_array (heap s) (top_scope s) of
        Inl e \<Rightarrow> Inl e
      | Inr arr \<Rightarrow>
          if \<not> arr \<and> top_scope s \<noteq> root then closeArray_loop (snd (popContext s)) else Inr s)"
  by pat_completeness auto
termination
proof (relation "measure (\<lambda>s. if top_scope s = root then 0 else length (stack s) + 2)")
  show "wf (measure (\<lambda>s. if top_scope s = root then 0 else length (stack s) + 2))"
    by simp
next
  fix s :: bstate and arr :: bool
  assume "\<not> arr \<and> top_scope s \<noteq> root"
  then have ne: "top_scope s \<noteq> root" by simp
  show "(snd (popContext s), s) \<in> measure (\<lambda>s. if top_scope s = root then 0 else length (stack s) + 2)"
  proof (cases "butlast (stack s) = []")
    case True
    then show ?thesis using ne by (simp add: popContext_def top_scope_def Let_def)
  next
    case False
    then have "stack s \<noteq> []" by auto
    then have "length (stack s) - Suc 0 < length (stack s)" by (cases "stack s") auto
    then show ?thesis using ne False by (simp add: popContext_def top_scope_def Let_def)
  qed
qed

declare closeArray_loop.simps [simp del]

definition closeArray :: "bstate \<Rightarrow> error + bstate" where
  "closeArray s =
     ebind (closeArray_loop s) (\<lambda>s1.
       ebind (is_array (heap s1) (top_scope s1)) (\<lambda>arr.
         if arr then Inr (snd (popContext s1)) else Inr s1))"

text \<open>In the freeform case the value is a trimmed string, so \<open>typeof value == "object"\<close>
  is false and the record is pushed with the key as it is.\<close>

definition value_instr ::
  "options \<Rightarrow> string option \<Rightarrow> string option \<Rightarrow> bstate \<Rightarrow> error + bstate" where
  "value_instr opts k v s =
     (let target = top_scope s in
      case v of
        None \<Rightarrow> Inl (TypeError Read_of_undefined)
      | Some vs \<Rightarrow>
          let v' = Str (trim vs) in
          ebind (is_array (heap s) target) (\<lambda>arr.
            if arr then
              ebind (get_type (heap s) target) (\<lambda>t.
                if t = Some Simple then Inr s
                else if t = Some Freeform then
                  (let (h1, r) = new_record (heap s)
                                   (case k of None \<Rightarrow> Undefined | Some ks \<Rightarrow> Str ks) v'
                   in ebind (push_elem h1 target r) (\<lambda>h2. Inr (s\<lparr>heap := h2\<rparr>)))
                else ebind (append opts (heap s) target k v') (\<lambda>h1. Inr (s\<lparr>heap := h1\<rparr>)))
            else ebind (append opts (heap s) target k v') (\<lambda>h1. Inr (s\<lparr>heap := h1\<rparr>))))"

text \<open>\<open>(key + value).trim()\<close> on NaN is a call of \<open>undefined\<close>.\<close>

definition simple :: "string option \<Rightarrow> string option \<Rightarrow> bstate \<Rightarrow> error + bstate" where
  "simple k v s =
     ebind (is_array (heap s) (top_scope s)) (\<lambda>arr.
       if \<not> arr then Inr s
       else
         ebind (get_type (heap s) (top_scope s)) (\<lambda>t.
           ebind (if t = Some Simple \<or> t = None then
                    ebind (assignType (heap s) (top_scope s) Simple) (\<lambda>h1.
                      case v of
                        None \<Rightarrow> Inl (TypeError Read_of_undefined)
                      | Some vs \<Rightarrow> push_elem h1 (top_scope s) (Str (trim vs)))
                  else Inr (heap s)) (\<lambda>h2.
             ebind (get_type h2 (top_scope s)) (\<lambda>t2.
               if t2 = Some Freeform then
                 (case js_add k v of
                    None \<Rightarrow> Inl (TypeError Not_a_function)
                  | Some kv \<Rightarrow>
                      (let (h3, r) = new_record h2 (Str ''text'') (Str (trim kv))
                       in ebind (push_elem h3 (top_scope s) r) (\<lambda>h4. Inr (s\<lparr>heap := h4\<rparr>))))
               else Inr (s\<lparr>heap := h2\<rparr>)))))"

definition object :: "options \<Rightarrow> string option \<Rightarrow> bstate \<Rightarrow> error + bstate" where
  "object opts k s =
     ebind (getTarget k s) (\<lambda>(target, s1).
       ebind (getPath opts (heap s1) target k) (\<lambda>found.
         let (h1, obj) = (if \<not> is_object found then alloc (heap s1) (Obj []) else (heap s1, found))
         in ebind (append opts h1 target k obj) (\<lambda>h2.
              Inr (pushContext obj (s1\<lparr>heap := h2\<rparr>)))))"

definition array :: "options \<Rightarrow> string option \<Rightarrow> bstate \<Rightarrow> error + bstate" where
  "array opts k s =
     (let (h0, arr) = alloc (heap s) (Arr None [] []) in
      ebind (getTarget k (s\<lparr>heap := h0\<rparr>)) (\<lambda>(target, s1).
        ebind (normalizeKeypath opts k) (\<lambda>kp.
          case pop_segment kp of
            None \<Rightarrow> Inl (TypeError Read_of_undefined)
          | Some lst \<Rightarrow>
              ebind (if lst \<noteq> [] \<and> hd lst = CHR ''+''
                     then assignType (heap s1) arr Freeform else Inr (heap s1)) (\<lambda>h1.
                ebind (append opts h1 target k arr) (\<lambda>h2.
                  Inr (pushContext arr (s1\<lparr>heap := h2\<rparr>)))))))"

fun push_lines :: "heap \<Rightarrow> val \<Rightarrow> string list \<Rightarrow> error + heap" where
  "push_lines h target [] = Inr h"
| "push_lines h target (l # ls) =
     (let (h1, r) = new_record h (Str ''text'') (Str (trim l))
      in ebind (push_elem h1 target r) (\<lambda>h2. push_lines h2 target ls))"

definition buffer_instr :: "string option \<Rightarrow> string option \<Rightarrow> bstate \<Rightarrow> error + bstate" where
  "buffer_instr k v s =
     (let target = top_scope s in
      ebind (get_type (heap s) target) (\<lambda>t.
        if t = Some Freeform then
          (case v of
             None \<Rightarrow> Inl (TypeError Read_of_undefined)
           | Some vs \<Rightarrow>
               ebind (push_lines (heap s) target
                        (filter (\<lambda>l. trim l \<noteq> []) (split_on (CHR 0x0A) vs)))
                 (\<lambda>h1. Inr (s\<lparr>heap := h1\<rparr>)))
        else Inr s))"

definition flush :: "bstate \<Rightarrow> error + bstate" where
  "flush s = Inr s"

definition skipped :: "bstate \<Rightarrow> error + bstate" where
  "skipped s = Inr s"

subsubsection \<open>Dispatch and the second loop of assemble\<close>

text \<open>\<open>this[type](key, value)\<close> calls whatever the assembler has under the name
  \<open>type\<close>. The nine handlers are modelled; for a name that is no property of the
  assembler at all the call is a call of \<open>undefined\<close>, a TypeError. The other members
  (the remaining methods and fields of the class and what \<open>Object.prototype\<close>
  provides) are called or fail as JavaScript has it, which is not described here.\<close>

definition other_members :: "string list" where
  "other_members =
     [''log'', ''top'', ''pushContext'', ''popContext'', ''getTarget'', ''reset'',
      ''normalizeKeypath'', ''getPath'', ''setPath'', ''assemble'', ''append'',
      ''addToArray'', ''options'', ''root'', ''stack'', ''instructions'', ''index'']
     @ object_members"

definition dispatch :: "options \<Rightarrow> instr \<Rightarrow> bstate \<Rightarrow> error + bstate" where
  "dispatch opts i s =
     (let t = itype i; k = key i; v = ivalue i in
      if t = ''simple'' then simple k v s
      else if t = ''buffer'' then buffer_instr k v s
      else if t = ''value'' then value_instr opts k v s
      else if t = ''object'' then object opts k s
      else if t = ''array'' then array opts k s
      else if t = ''closeObject'' then closeObject s
      else if t = ''closeArray'' then closeArray s
      else if t = ''flush'' then flush s
      else if t = ''skipped'' then skipped s
      else if t \<in> set other_members then Inl OutOfModel
      else Inl (TypeError Not_a_function))"

fun assemble_loop ::
  "options \<Rightarrow> bstate \<Rightarrow> trace \<Rightarrow> instr list \<Rightarrow> (error + bstate) \<times> trace" where
  "assemble_loop opts s tr [] = (Inr s, tr)"
| "assemble_loop opts s tr (i # is) =
     (let tr1 = log (verbose opts)
                  (''> Assembling: '' @ itype i @ ''/'' @ js_str (key i) @ ''/'' @ js_str (ivalue i)) tr
      in case dispatch opts i s of
           Inl e \<Rightarrow> (Inl e, tr1)
         | Inr s' \<Rightarrow> assemble_loop opts s' tr1 is)"

text \<open>\<open>assemble\<close> returns \<open>this.root\<close>: the store it returns holds the document
  at index 0. The trace is what was printed.\<close>

definition assemble :: "options \<Rightarrow> instr list \<Rightarrow> (error + bstate) \<times> trace" where
  "assemble opts is =
     (let (st, tr) = preprocess_run (verbose opts) is;
          tr1 = dump_all (verbose opts) (processed st)
                  (log (verbose opts) ''Post-process instructions'' tr)
      in assemble_loop opts init tr1 (processed st))"


subsection \<open>Notions used in the statements\<close>

text \<open>Options with hooks that change nothing, and an instruction written in one line.\<close>

definition plain_options :: "bool \<Rightarrow> options" where
  "plain_options v = \<lparr>verbose = v, onFieldName = (\<lambda>name. name), onValue = (\<lambda>x k. x)\<rparr>"

definition ins :: "string \<Rightarrow> string option \<Rightarrow> string option \<Rightarrow> instr" where
  "ins t k v = \<lparr>itype = t, key = k, ivalue = v\<rparr>"

text \<open>The document behind a reference, read out of the store as a tree. The store can
  hold cycles, so the reading has a depth bound and is \<open>None\<close> beyond it.\<close>

datatype doc =
    DUndefined
  | DStr string
  | DObj "(string \<times> doc) list"
  | DArr "subtype option" "doc list" "(string \<times> doc) list"

fun those_props :: "(string \<times> doc option) list \<Rightarrow> (string \<times> doc) list option" where
  "those_props [] = Some []"
| "those_props ((k, d) # ps) =
     (case d of None \<Rightarrow> None
      | Some x \<Rightarrow> (case those_props ps of None \<Rightarrow> None | Some qs \<Rightarrow> Some ((k, x) # qs)))"

fun document :: "nat \<Rightarrow> heap \<Rightarrow> val \<Rightarrow> doc option" where
  "document 0 h v = None"
| "document (Suc n) h v =
     (case v of
        Undefined \<Rightarrow> Some DUndefined
      | Str s \<Rightarrow> Some (DStr s)
      | Ref a \<Rightarrow>
          if a < length h then
            (case h ! a of
               Obj ps \<Rightarrow>
                 map_option DObj (those_props (map (\<lambda>p. (fst p, document n h (snd p))) ps))
             | Arr t es ps \<Rightarrow>
                 (case (those (map (document n h) es),
                        those_props (map (\<lambda>p. (fst p, document n h (snd p))) ps)) of
                    (Some ds, Some qs) \<Rightarrow> Some (DArr t ds qs)
                  | _ \<Rightarrow> None))
          else None)"

definition returned_document :: "nat \<Rightarrow> (error + bstate) \<Rightarrow> doc option" where
  "returned_document n r = (case r of Inl e \<Rightarrow> None | Inr s \<Rightarrow> document n (heap s) root)"

text \<open>A processed stream whose buffer instructions a second pass leaves alone: the
  text of each is not blank, has no backslash at the start of a line, and the
  instruction is the last one or stands before a \<open>value\<close>, \<open>object\<close>, \<open>array\<close>,
  \<open>closeObject\<close> or \<open>closeArray\<close> instruction.\<close>

definition settled_text :: "string \<Rightarrow> bool" where
  "settled_text m = (trim m \<noteq> [] \<and> strip_backslash True m = m)"

fun settled :: "instr list \<Rightarrow> bool" where
  "settled [] = True"
| "settled (i # rest) =
     ((if itype i = ''buffer'' then
         (case ivalue i of None \<Rightarrow> False | Some m \<Rightarrow> settled_text m) \<and>
         (case rest of [] \<Rightarrow> True | j # r \<Rightarrow> itype j = ''value'' \<or> structural (itype j))
       else True) \<and> settled rest)"


text \<open>The subtype of the array at an index of the store; \<open>None\<close> where there is no
  array or none is assigned yet.\<close>

definition subtype_at :: "heap \<Rightarrow> nat \<Rightarrow> subtype option" where
  "subtype_at h a =
     (if a < length h then (case h ! a of Arr t es ps \<Rightarrow> t | Obj ps \<Rightarrow> None) else None)"

text \<open>The instruction kinds that have a handler of their own.\<close>

definition handler_names :: "string list" where
  "handler_names =
     [''simple'', ''buffer'', ''value'', ''object'', ''array'', ''closeObject'',
      ''closeArray'', ''flush'', ''skipped'']"

subsection \<open>Notions used in the proofs\<close>

text \<open>What the first pass remembers about its anchor, read off the processed stream:
  the kind of the last \<open>simple\<close> or \<open>value\<close> instruction since the last
  instruction of the default case. \<open>wf_out\<close> says that a stream can be the output of
  the pass: a \<open>simple\<close> never follows a \<open>value\<close> anchor, a \<open>value\<close> never a
  \<open>simple\<close> anchor, buffer instructions are those the pass makes, and there is no
  \<open>flush\<close>.\<close>

datatype anchor = NoAnchor | SimpleAnchor | ValueAnchor

definition next_anchor :: "anchor \<Rightarrow> instr \<Rightarrow> anchor" where
  "next_anchor k i =
     (if itype i = ''simple'' then SimpleAnchor
      else if itype i = ''value'' then ValueAnchor
      else if itype i = ''buffer'' then k
      else NoAnchor)"

definition emit_ok :: "anchor \<Rightarrow> instr \<Rightarrow> bool" where
  "emit_ok k i =
     (if itype i = ''simple'' then k \<noteq> ValueAnchor
      else if itype i = ''value'' then k \<noteq> SimpleAnchor
      else if itype i = ''buffer'' then key i = None \<and> ivalue i \<noteq> None
      else itype i \<noteq> ''flush'')"

fun wf_out :: "anchor \<Rightarrow> instr list \<Rightarrow> bool" where
  "wf_out k [] = True"
| "wf_out k (i # r) = (emit_ok k i \<and> wf_out (next_anchor k i) r)"

definition kind :: "pstate \<Rightarrow> anchor" where
  "kind st =
     (case lastValue st of
        None \<Rightarrow> NoAnchor
      | Some j \<Rightarrow> if itype (processed st ! j) = ''simple'' then SimpleAnchor else ValueAnchor)"

definition anchor_valid :: "pstate \<Rightarrow> bool" where
  "anchor_valid st =
     (case lastValue st of
        None \<Rightarrow> True
      | Some j \<Rightarrow> j < length (processed st) \<and>
          (itype (processed st ! j) = ''simple'' \<or> itype (processed st ! j) = ''value''))"


text \<open>The invariant of the first pass.\<close>

definition pass_inv :: "pstate \<Rightarrow> bool" where
  "pass_inv st = (anchor_valid st \<and> wf_out NoAnchor (processed st) \<and>
                  foldl next_anchor NoAnchor (processed st) = kind st)"

text \<open>The state of a second pass between two instructions of such a stream.\<close>

definition follows_buffer :: "instr list \<Rightarrow> bool" where
  "follows_buffer p = (case p of [] \<Rightarrow> True | j # r \<Rightarrow> itype j = ''value'' \<or> structural (itype j))"

definition pending_ok :: "string list \<Rightarrow> instr list \<Rightarrow> bool" where
  "pending_ok b p = (b = [] \<or> (\<exists>m. b = [m] \<and> settled_text m \<and> follows_buffer p))"

definition index_ok :: "pstate \<Rightarrow> bool" where
  "index_ok st = (case lastValue st of None \<Rightarrow> True | Some j \<Rightarrow> j < length (processed st))"


text \<open>A step of the store keeps what is assigned: nothing is removed from the store and
  an assigned subtype stays.\<close>

definition keeps :: "heap \<Rightarrow> heap \<Rightarrow> bool" where
  "keeps h h' = (length h \<le> length h' \<and>
                 (\<forall>a t. subtype_at h a = Some t \<longrightarrow> subtype_at h' a = Some t))"

text \<open>The context stack is not empty and its bottom is the root.\<close>

definition stack_ok :: "bstate \<Rightarrow> bool" where
  "stack_ok s = (stack s \<noteq> [] \<and> hd (stack s) = root)"

section \<open>Properties\<close>

subsection \<open>The pre-processing pass as a fold\<close>

text \<open>The while loop that swallows buffer instructions does what \<open>pre_step\<close> does
  on each of them, so the pass without its trace is a fold of \<open>pre_step\<close>.\<close>

lemma pre_step_buffer:
  "itype n = ''buffer'' \<Longrightarrow> pre_step st n = st\<lparr>buffer := buffer st @ [join_field (ivalue n)]\<rparr>"
  by (simp add: pre_step_def)

lemma absorb_fold:
  "foldl pre_step (st\<lparr>buffer := fst (absorb b rest)\<rparr>) (snd (absorb b rest))
     = foldl pre_step (st\<lparr>buffer := b\<rparr>) rest"
proof (induction rest arbitrary: b)
  case Nil
  then show ?case by simp
next
  case (Cons n rest)
  show ?case
  proof (cases "itype n = ''buffer''")
    case True
    then show ?thesis using Cons.IH [of "b @ [join_field (ivalue n)]"]
      by (simp add: pre_step_buffer)
  next
    case False
    then show ?thesis by simp
  qed
qed

lemma pre_step_demoted:
  "itype i = ''simple'' \<Longrightarrow> \<not> simple_passes st \<Longrightarrow>
   pre_step st i = st\<lparr>buffer := buffer st @ [join_sum (js_add (key i) (ivalue i))]\<rparr>"
  by (simp add: pre_step_def)

lemma pre_loop_fold: "fst (pre_loop v st tr xs) = foldl pre_step st xs"
proof (induction v st tr xs rule: pre_loop.induct)
  case (1 v st tr)
  then show ?case by simp
next
  case (2 v st tr i rest)
  show ?case
  proof (cases "itype i = ''simple'' \<and> \<not> simple_passes st")
    case True
    then show ?thesis
      using 2(1) absorb_fold [where st = st and b = "buffer st @ [join_sum (js_add (key i) (ivalue i))]" and rest = rest]
      by (simp add: Let_def pre_step_demoted)
  next
    case False
    note nd = this
    show ?thesis
    proof (cases "itype i = ''buffer''")
      case True
      then show ?thesis
        using nd 2(2) absorb_fold [where st = st and b = "buffer st @ [join_field (ivalue i)]" and rest = rest]
        by (simp add: Let_def pre_step_buffer)
    next
      case False
      then show ?thesis using nd 2(3) by auto
    qed
  qed
qed

lemma preprocess_fold: "preprocess v xs = push_merged (foldl pre_step pre_init xs)"
  by (simp add: preprocess_def preprocess_run_def pre_finish_def pre_loop_fold)

subsection \<open>What the pre-processing pass can put out\<close>

lemma wf_out_append:
  "wf_out k (p @ q) = (wf_out k p \<and> wf_out (foldl next_anchor k p) q)"
  by (induction p arbitrary: k) auto

lemma shape_update:
  "j < length p \<Longrightarrow> itype x = itype (p ! j) \<Longrightarrow> itype x \<noteq> ''buffer'' \<Longrightarrow>
   wf_out k (p[j := x]) = wf_out k p \<and> foldl next_anchor k (p[j := x]) = foldl next_anchor k p"
proof (induction p arbitrary: j k)
  case Nil
  then show ?case by simp
next
  case (Cons a p)
  show ?case
  proof (cases j)
    case 0
    then show ?thesis using Cons.prems by (simp add: emit_ok_def next_anchor_def)
  next
    case (Suc n)
    then show ?thesis using Cons.prems Cons.IH [of n] by simp
  qed
qed

lemma anchor_is_simple_kind: "anchor_is_simple st = (kind st = SimpleAnchor)"
  by (simp add: anchor_is_simple_def kind_def split: option.splits)

lemma simple_passes_kind: "simple_passes st = (kind st \<noteq> ValueAnchor)"
  by (auto simp: simple_passes_def anchor_is_simple_def kind_def split: option.splits)

lemma merge_empty: "mergeBuffer [] = []"
  by (simp add: mergeBuffer_def)

lemma trim_empty: "trim [] = []"
  by (simp add: trim_def)

lemma push_merged_cases:
  "push_merged st = processed st \<or>
   push_merged st = processed st @ [new_buffer (mergeBuffer (buffer st))]"
  by (simp add: push_merged_def Let_def)

lemma wf_new_buffer: "emit_ok k (new_buffer m)" "next_anchor k (new_buffer m) = k"
  by (simp_all add: emit_ok_def next_anchor_def new_buffer_def)

lemma push_merged_wf:
  assumes "wf_out NoAnchor (processed st)"
  shows "wf_out NoAnchor (push_merged st) \<and>
         foldl next_anchor NoAnchor (push_merged st) = foldl next_anchor NoAnchor (processed st)"
  using assms push_merged_cases [of st]
  by (auto simp: wf_out_append wf_new_buffer)

lemma push_merged_length: "length (processed st) \<le> length (push_merged st)"
  using push_merged_cases [of st] by auto

lemma pass_inv_init: "pass_inv pre_init"
  by (simp add: pass_inv_def pre_init_def anchor_valid_def kind_def)

lemma pass_inv_buffer_upd: "pass_inv (st\<lparr>buffer := b\<rparr>) = pass_inv st"
  by (cases "lastValue st") (simp_all add: pass_inv_def anchor_valid_def kind_def)

lemma pass_inv_flush: "pass_inv st \<Longrightarrow> pass_inv (flush_case st)"
proof -
  assume inv: "pass_inv st"
  show ?thesis
  proof (cases "lastValue st")
    case None
    then show ?thesis using inv
      by (auto simp: flush_case_def Let_def pass_inv_def anchor_valid_def kind_def
                     wf_out_append wf_new_buffer)
  next
    case (Some j)
    with inv have j: "j < length (processed st)"
      and ty: "itype (processed st ! j) = ''simple'' \<or> itype (processed st ! j) = ''value''"
      by (auto simp: pass_inv_def anchor_valid_def)
    let ?x = "(processed st ! j)\<lparr>ivalue := Some (js_str (ivalue (processed st ! j)) @ mergeBuffer (buffer st))\<rparr>"
    have tx: "itype ?x = itype (processed st ! j)" by simp
    have nb: "itype ?x \<noteq> ''buffer''" using ty by auto
    note su = shape_update [OF j tx nb]
    show ?thesis using inv Some j ty su
      by (auto simp: flush_case_def Let_def pass_inv_def anchor_valid_def kind_def
                     wf_out_append wf_new_buffer nth_append)
  qed
qed

lemma pass_inv_step: "pass_inv st \<Longrightarrow> pass_inv (pre_step st i)"
proof -
  assume inv: "pass_inv st"
  then have wf: "wf_out NoAnchor (processed st)"
    and fk: "foldl next_anchor NoAnchor (processed st) = kind st"
    by (auto simp: pass_inv_def)
  note pm = push_merged_wf [OF wf]
  consider (simple) "itype i = ''simple''" | (buffer) "itype i = ''buffer''"
    | (val) "itype i = ''value''" | (flush) "itype i = ''flush''"
    | (struct) "itype i \<noteq> ''simple''" "itype i \<noteq> ''buffer''" "itype i \<noteq> ''value''"
               "itype i \<noteq> ''flush''" "structural (itype i)"
    | (other) "itype i \<noteq> ''simple''" "itype i \<noteq> ''buffer''" "itype i \<noteq> ''value''"
               "itype i \<noteq> ''flush''" "\<not> structural (itype i)"
    by blast
  then show ?thesis
  proof cases
    case simple
    show ?thesis
    proof (cases "simple_passes st")
      case True
      then have "kind st \<noteq> ValueAnchor" by (simp add: simple_passes_kind)
      then show ?thesis using simple True wf fk
        by (simp add: pre_step_def pass_inv_def anchor_valid_def kind_def wf_out_append
                      emit_ok_def next_anchor_def)
    next
      case False
      then show ?thesis using simple inv by (simp add: pre_step_def pass_inv_buffer_upd)
    qed
  next
    case buffer
    then show ?thesis using inv by (simp add: pre_step_def pass_inv_buffer_upd)
  next
    case val
    show ?thesis
    proof (cases "anchor_is_simple st")
      case True
      then show ?thesis using val inv by (simp add: pre_step_def pass_inv_buffer_upd)
    next
      case False
      then have "kind st \<noteq> SimpleAnchor" by (simp add: anchor_is_simple_kind)
      then show ?thesis using val False pm fk
        by (simp add: pre_step_def pass_inv_def anchor_valid_def kind_def wf_out_append
                      emit_ok_def next_anchor_def)
    qed
  next
    case flush
    then show ?thesis using inv pass_inv_flush by (simp add: pre_step_def)
  next
    case struct
    then show ?thesis using pm
      by (simp add: pre_step_def pass_inv_def anchor_valid_def kind_def wf_out_append
                    emit_ok_def next_anchor_def)
  next
    case other
    then show ?thesis using wf
      by (simp add: pre_step_def pass_inv_def anchor_valid_def kind_def wf_out_append
                    emit_ok_def next_anchor_def)
  qed
qed

lemma pass_inv_foldl: "pass_inv st \<Longrightarrow> pass_inv (foldl pre_step st xs)"
  by (induction xs arbitrary: st) (auto simp: pass_inv_step)

lemma preprocess_wf: "wf_out NoAnchor (preprocess v xs)"
proof -
  have "pass_inv (foldl pre_step pre_init xs)"
    using pass_inv_init by (rule pass_inv_foldl)
  then show ?thesis
    using push_merged_wf by (simp add: preprocess_fold pass_inv_def)
qed

lemma push_merged_empty: "buffer st = [] \<Longrightarrow> push_merged st = processed st"
  by (simp add: push_merged_def merge_empty trim_empty)

lemma push_merged_single:
  "buffer st = [m] \<Longrightarrow> settled_text m \<Longrightarrow> push_merged st = processed st @ [new_buffer m]"
  by (simp add: push_merged_def mergeBuffer_def settled_text_def)

lemma structural_not:
  "structural t \<Longrightarrow> t \<noteq> ''simple'' \<and> t \<noteq> ''buffer'' \<and> t \<noteq> ''value'' \<and> t \<noteq> ''flush''"
  by (auto simp: structural_def)

lemma kind_append:
  "index_ok st \<Longrightarrow> kind (st\<lparr>processed := processed st @ q, buffer := b\<rparr>) = kind st"
  by (cases "lastValue st") (simp_all add: kind_def index_ok_def nth_append)

lemma second_pass_step:
  assumes wf: "emit_ok (kind st) i"
    and se: "settled (i # r)"
    and pe: "pending_ok (buffer st) (i # r)"
    and ix: "index_ok st"
  shows "push_merged (pre_step st i) = push_merged st @ [i]
         \<and> kind (pre_step st i) = next_anchor (kind st) i
         \<and> pending_ok (buffer (pre_step st i)) r
         \<and> index_ok (pre_step st i)"
proof -
  consider (simple) "itype i = ''simple''" | (buffer) "itype i = ''buffer''"
    | (val) "itype i = ''value''"
    | (struct) "structural (itype i)"
    | (other) "itype i \<noteq> ''simple''" "itype i \<noteq> ''buffer''" "itype i \<noteq> ''value''"
               "\<not> structural (itype i)"
    by blast
  then show ?thesis
  proof cases
    case simple
    then have "\<not> follows_buffer (i # r)" by (simp add: follows_buffer_def structural_def)
    then have be: "buffer st = []" using pe by (auto simp: pending_ok_def)
    have sp: "simple_passes st" using wf simple by (simp add: emit_ok_def simple_passes_kind)
    show ?thesis using simple be sp
      by (simp add: pre_step_def push_merged_empty kind_def next_anchor_def pending_ok_def
                    index_ok_def)
  next
    case buffer
    then have "\<not> follows_buffer (i # r)" by (simp add: follows_buffer_def structural_def)
    then have be: "buffer st = []" using pe by (auto simp: pending_ok_def)
    from wf buffer obtain m where iv: "ivalue i = Some m" and ik: "key i = None"
      by (auto simp: emit_ok_def)
    have inb: "i = new_buffer m" using buffer iv ik by (simp add: new_buffer_def)
    have sm: "settled_text m" and fb: "follows_buffer r"
      using se buffer iv by (auto simp: follows_buffer_def split: list.splits)
    have st': "pre_step st i = st\<lparr>buffer := [m]\<rparr>"
      using buffer be iv by (simp add: pre_step_def join_field_def)
    have k: "kind (st\<lparr>buffer := [m]\<rparr>) = kind st"
      by (cases "lastValue st") (simp_all add: kind_def)
    have ixx: "index_ok (st\<lparr>buffer := [m]\<rparr>) = index_ok st"
      by (cases "lastValue st") (simp_all add: index_ok_def)
    have pm: "push_merged (st\<lparr>buffer := [m]\<rparr>) = processed st @ [i]"
      using sm inb by (simp add: push_merged_single)
    have pm0: "push_merged st = processed st" using be by (rule push_merged_empty)
    show ?thesis unfolding st' using pm pm0 k ixx ix sm fb buffer
      by (simp add: next_anchor_def pending_ok_def)
  next
    case val
    have na: "\<not> anchor_is_simple st" using wf val by (simp add: emit_ok_def anchor_is_simple_kind)
    show ?thesis using val na
      by (simp add: pre_step_def push_merged_empty kind_def next_anchor_def pending_ok_def
                    index_ok_def)
  next
    case struct
    note sn = structural_not [OF struct]
    show ?thesis using struct sn
      by (simp add: pre_step_def push_merged_empty kind_def next_anchor_def pending_ok_def
                    index_ok_def)
  next
    case other
    then have "\<not> follows_buffer (i # r)" by (simp add: follows_buffer_def)
    then have be: "buffer st = []" using pe by (auto simp: pending_ok_def)
    have nf: "itype i \<noteq> ''flush''" using wf other by (simp add: emit_ok_def)
    show ?thesis using other nf be
      by (simp add: pre_step_def push_merged_empty kind_def next_anchor_def pending_ok_def
                    index_ok_def)
  qed
qed

lemma second_pass:
  "wf_out (kind st) p \<Longrightarrow> settled p \<Longrightarrow> pending_ok (buffer st) p \<Longrightarrow> index_ok st \<Longrightarrow>
   push_merged (foldl pre_step st p) = push_merged st @ p"
proof (induction p arbitrary: st)
  case Nil
  then show ?case by simp
next
  case (Cons i r)
  from Cons.prems have eo: "emit_ok (kind st) i" and wr: "wf_out (next_anchor (kind st) i) r"
    by auto
  note step = second_pass_step [OF eo Cons.prems(2) Cons.prems(3) Cons.prems(4)]
  from Cons.prems(2) have sr: "settled r" by simp
  have "push_merged (foldl pre_step (pre_step st i) r) = push_merged (pre_step st i) @ r"
    using Cons.IH [of "pre_step st i"] step wr sr by simp
  then show ?case using step by simp
qed


subsection \<open>Nested object, then scalars\<close>

text \<open>
  Claim C1. The instructions object("article"), value("title", "Hello"),
  value("body", "World"), closeObject() produce the document
  {article: {title: "Hello", body: "World"}}: the \<open>value\<close> handler writes into the top of
  the context stack, which is the object that the \<open>object\<close> instruction pushed (store
  index 1), whether or not the key starts with a dot. The stack is back to the root at
  the end.
\<close>

theorem nested_object_then_scalars:
  "fst (assemble (plain_options False)
         [ins ''object'' (Some ''article'') None,
          ins ''value'' (Some ''title'') (Some ''Hello''),
          ins ''value'' (Some ''body'') (Some ''World''),
          ins ''closeObject'' None None])
     = Inr \<lparr>heap = [Obj [(''article'', Ref 1)],
                     Obj [(''title'', Str ''Hello''), (''body'', Str ''World'')]],
             stack = [root]\<rparr>
   \<and> returned_document 3
         (fst (assemble (plain_options False)
                [ins ''object'' (Some ''article'') None,
                 ins ''value'' (Some ''title'') (Some ''Hello''),
                 ins ''value'' (Some ''body'') (Some ''World''),
                 ins ''closeObject'' None None]))
     = Some (DObj [(''article'', DObj [(''title'', DStr ''Hello''), (''body'', DStr ''World'')])])"
  by code_simp

subsection \<open>Reading a keypath\<close>

text \<open>
  Claim C8. The claim is that \<open>getPath\<close> never throws and returns \<open>undefined\<close> when a
  step of the keypath does not exist or leads through a value that is not an object.
  The comment above \<open>getPath\<close> says the same, and \<open>setPath\<close> does test
  \<open>typeof branch[k] != "object"\<close> before it descends. \<open>getPath\<close> descends without the
  test: when a segment before the terminal one holds a string, the next round of the
  loop evaluates \<open>k in branch\<close> on that string, which is a TypeError. Here the object is
  {a: "x"} and the keypath a.b.c; the stream value("a", "x"), object("a.b.c") reaches it
  through the \<open>object\<close> handler.
\<close>

theorem getPath_throws_through_string:
  "getPath (plain_options False) [Obj [(''a'', Str ''x'')]] (Ref 0) (Some ''a.b.c'')
     = Inl (TypeError In_on_primitive)
   \<and> fst (assemble (plain_options False)
           [ins ''value'' (Some ''a'') (Some ''x''), ins ''object'' (Some ''a.b.c'') None])
     = Inl (TypeError In_on_primitive)"
  by code_simp


subsection \<open>Skipped instructions in the pre-processing pass\<close>

text \<open>
  Claim C5, as amended. The pre-processing pass does not drop a \<open>skipped\<close>
  instruction: it falls into the default case of the switch, which pushes the
  instruction to the processed stream unchanged and clears the anchor
  (\<open>lastValue = null\<close>); the pending buffer stays. Only the handler \<open>skipped\<close> of the
  second loop does nothing.
\<close>

theorem skipped_passes_through:
  "itype i = ''skipped'' \<Longrightarrow>
     pre_loop v st tr (i # rest)
       = pre_loop v (st\<lparr>processed := processed st @ [i], lastValue := None\<rparr>) tr rest
     \<and> dispatch opts i s = Inr s"
  by (simp add: pre_step_def step_trace_def structural_def simple_passes_def dispatch_def
                skipped_def Let_def)

theorem skipped_passes_through_witness:
  "itype (ins ''skipped'' None None) = ''skipped''
   \<and> pre_loop False pre_init [] [ins ''skipped'' None None]
       = pre_loop False (pre_init\<lparr>processed := processed pre_init @ [ins ''skipped'' None None],
                                 lastValue := None\<rparr>) [] []
   \<and> dispatch (plain_options False) (ins ''skipped'' None None) init = Inr init"
proof -
  have h: "itype (ins ''skipped'' None None) = ''skipped''" by (simp add: ins_def)
  show ?thesis
    using h skipped_passes_through [OF h, of False pre_init "[]" "[]" "plain_options False" init]
    by simp
qed

text \<open>
  Claim C5 as stated fails: pre-processing a stream is not pre-processing the stream
  without its \<open>skipped\<close> instructions. The instruction stays in the output, and
  behind a \<open>value\<close> it keeps the text that follows from being added to that value.
\<close>

theorem skipped_not_dropped:
  "preprocess False [ins ''skipped'' None None]
     \<noteq> preprocess False (filter (\<lambda>i. itype i \<noteq> ''skipped'') [ins ''skipped'' None None])
   \<and> preprocess False
        [ins ''value'' (Some ''a'') (Some ''x''), ins ''skipped'' None None,
         ins ''buffer'' None (Some ''text''), ins ''flush'' None None]
     = [ins ''value'' (Some ''a'') (Some ''x''), ins ''skipped'' None None,
        ins ''buffer'' None (Some ''text'')]
   \<and> preprocess False
        (filter (\<lambda>i. itype i \<noteq> ''skipped'')
          [ins ''value'' (Some ''a'') (Some ''x''), ins ''skipped'' None None,
           ins ''buffer'' None (Some ''text''), ins ''flush'' None None])
     = [ins ''value'' (Some ''a'') (Some ''xtext'')]"
  by code_simp

subsection \<open>The pending buffer at structural instructions and at the end\<close>

text \<open>
  Claim C6, as amended. At an \<open>object\<close>, \<open>array\<close>, \<open>closeObject\<close> or \<open>closeArray\<close>
  instruction, and after the last instruction, the merged buffer is pushed as a new
  \<open>buffer\<close> instruction when it is not blank after trimming, and nothing is pushed
  otherwise; the anchor's value is never extended there. At a structural instruction
  the buffer and the anchor are then cleared and the instruction is pushed.
\<close>

theorem structural_flush_rule:
  "structural (itype i) \<Longrightarrow>
     (let m = mergeBuffer (buffer st);
          out = (if trim m \<noteq> [] then processed st @ [new_buffer m] else processed st)
      in pre_loop v st tr (i # rest)
           = pre_loop v (st\<lparr>processed := out @ [i], lastValue := None, buffer := []\<rparr>)
               (log v (''Encountered '' @ itype i @ '' ('' @ js_str (key i) @ ''), clearing buffer'') tr)
               rest
         \<and> processed (fst (pre_finish v (st, tr))) = out)"
proof -
  assume s: "structural (itype i)"
  note sn = structural_not [OF s]
  show ?thesis using s sn
    by (simp add: Let_def pre_step_def step_trace_def push_merged_def pre_finish_def)
qed

theorem structural_flush_rule_witness:
  "structural (itype (ins ''object'' (Some ''o'') None))
   \<and> (let st = \<lparr>processed = [ins ''value'' (Some ''a'') (Some ''x'')], lastValue = Some 0,
                 buffer = [''text'']\<rparr>;
          i = ins ''object'' (Some ''o'') None
      in pre_loop False st [] [i]
           = pre_loop False
               (st\<lparr>processed := [ins ''value'' (Some ''a'') (Some ''x''), new_buffer ''text'', i],
                   lastValue := None, buffer := []\<rparr>) [] []
         \<and> processed (fst (pre_finish False (st, [])))
             = [ins ''value'' (Some ''a'') (Some ''x''), new_buffer ''text''])"
proof -
  have h: "structural (itype (ins ''object'' (Some ''o'') None))"
    by (simp add: structural_def ins_def)
  have m: "mergeBuffer [''text''] = ''text''" by (simp add: mergeBuffer_def)
  have t: "trim ''text'' = ''text''" by (simp add: trim_def is_ws_def)
  show ?thesis
    using h structural_flush_rule [OF h, of "\<lparr>processed = [ins ''value'' (Some ''a'') (Some ''x'')],
        lastValue = Some 0, buffer = [''text'']\<rparr>" False "[]" "[]"]
    by (simp add: Let_def m t log_def)
qed

text \<open>
  Claim C6 as stated fails: with a \<open>value\<close> anchor and the pending text "text", a
  \<open>flush\<close> instruction appends the text to the value of the anchor, while an
  \<open>object\<close> instruction and the end of the stream push it as an instruction of its own.
\<close>

theorem structural_flush_not_flush:
  "preprocess False
     [ins ''value'' (Some ''a'') (Some ''x''), ins ''buffer'' None (Some ''text''),
      ins ''object'' (Some ''o'') None]
     = [ins ''value'' (Some ''a'') (Some ''x''), ins ''buffer'' None (Some ''text''),
        ins ''object'' (Some ''o'') None]
   \<and> preprocess False
     [ins ''value'' (Some ''a'') (Some ''x''), ins ''buffer'' None (Some ''text''),
      ins ''flush'' None None, ins ''object'' (Some ''o'') None]
     = [ins ''value'' (Some ''a'') (Some ''xtext''), ins ''object'' (Some ''o'') None]
   \<and> preprocess False
     [ins ''value'' (Some ''a'') (Some ''x''), ins ''buffer'' None (Some ''text'')]
     = [ins ''value'' (Some ''a'') (Some ''x''), ins ''buffer'' None (Some ''text'')]
   \<and> preprocess False
     [ins ''value'' (Some ''a'') (Some ''x''), ins ''buffer'' None (Some ''text''),
      ins ''flush'' None None]
     = [ins ''value'' (Some ''a'') (Some ''xtext'')]"
  by code_simp

subsection \<open>Pre-processing a processed stream\<close>

text \<open>
  Claim C7, as amended. A second pass over a processed stream returns it unchanged
  whenever that stream is settled: each of its \<open>buffer\<close> instructions has a text that
  is not blank and has no backslash at the start of a line, and is the last
  instruction or stands before a \<open>value\<close>, \<open>object\<close>, \<open>array\<close>, \<open>closeObject\<close>
  or \<open>closeArray\<close> instruction.
\<close>

theorem preprocess_twice:
  "settled (preprocess v xs) \<Longrightarrow> preprocess w (preprocess v xs) = preprocess v xs"
proof -
  assume se: "settled (preprocess v xs)"
  have wf: "wf_out (kind pre_init) (preprocess v xs)"
    using preprocess_wf [of v xs] by (simp add: kind_def pre_init_def)
  have pe: "pending_ok (buffer pre_init) (preprocess v xs)"
    by (simp add: pending_ok_def pre_init_def)
  have ix: "index_ok pre_init" by (simp add: index_ok_def pre_init_def)
  have pm: "push_merged pre_init = []"
    by (simp add: push_merged_empty pre_init_def)
  show ?thesis using second_pass [OF wf se pe ix] pm by (simp add: preprocess_fold)
qed

theorem preprocess_twice_witness:
  "settled (preprocess False
      [ins ''value'' (Some ''a'') (Some ''x''), ins ''buffer'' None (Some ''t''),
       ins ''flush'' None None, ins ''buffer'' None (Some ''u''),
       ins ''object'' (Some ''o'') None])
   \<and> preprocess False (preprocess False
      [ins ''value'' (Some ''a'') (Some ''x''), ins ''buffer'' None (Some ''t''),
       ins ''flush'' None None, ins ''buffer'' None (Some ''u''),
       ins ''object'' (Some ''o'') None])
     = [ins ''value'' (Some ''a'') (Some ''xt''), ins ''buffer'' None (Some ''u''),
        ins ''object'' (Some ''o'') None]"
proof -
  have p: "preprocess False
      [ins ''value'' (Some ''a'') (Some ''x''), ins ''buffer'' None (Some ''t''),
       ins ''flush'' None None, ins ''buffer'' None (Some ''u''),
       ins ''object'' (Some ''o'') None]
     = [ins ''value'' (Some ''a'') (Some ''xt''), ins ''buffer'' None (Some ''u''),
        ins ''object'' (Some ''o'') None]"
    by code_simp
  have h: "settled (preprocess False
      [ins ''value'' (Some ''a'') (Some ''x''), ins ''buffer'' None (Some ''t''),
       ins ''flush'' None None, ins ''buffer'' None (Some ''u''),
       ins ''object'' (Some ''o'') None])"
    by code_simp
  show ?thesis using h preprocess_twice [OF h, of False] p by simp
qed

text \<open>
  Claim C7 as stated fails. A second pass strips one more backslash from a buffer
  text that still starts with one; it drops a blank buffer instruction that a
  \<open>flush\<close> pushed; and it merges two buffer instructions that stand side by side.
\<close>

theorem preprocess_not_idempotent:
  "preprocess False (preprocess False [ins ''buffer'' None (Some [CHR 0x5C, CHR 0x5C, CHR ''x''])])
     \<noteq> preprocess False [ins ''buffer'' None (Some [CHR 0x5C, CHR 0x5C, CHR ''x''])]
   \<and> preprocess False [ins ''buffer'' None (Some [CHR 0x5C, CHR 0x5C, CHR ''x''])]
     = [ins ''buffer'' None (Some [CHR 0x5C, CHR ''x''])]
   \<and> preprocess False [ins ''buffer'' None (Some [CHR 0x5C, CHR ''x''])]
     = [ins ''buffer'' None (Some ''x'')]
   \<and> preprocess False [ins ''buffer'' None (Some '' ''), ins ''flush'' None None]
     = [ins ''buffer'' None (Some '' '')]
   \<and> preprocess False [ins ''buffer'' None (Some '' '')] = []
   \<and> preprocess False
       [ins ''buffer'' None (Some ''a''), ins ''flush'' None None,
        ins ''buffer'' None (Some ''b''), ins ''flush'' None None]
     = [ins ''buffer'' None (Some ''a''), ins ''buffer'' None (Some ''b'')]
   \<and> preprocess False [ins ''buffer'' None (Some ''a''), ins ''buffer'' None (Some ''b'')]
     = [ins ''buffer'' None (Some ''ab'')]"
  by code_simp


subsection \<open>The store only grows and keeps assigned subtypes\<close>

lemma ebind_Inr_iff: "(ebind m f = Inr y) = (\<exists>x. m = Inr x \<and> f x = Inr y)"
  by (cases m) (simp_all add: ebind_def)

lemma keeps_refl: "keeps h h"
  by (simp add: keeps_def)

lemma keeps_trans: "keeps h1 h2 \<Longrightarrow> keeps h2 h3 \<Longrightarrow> keeps h1 h3"
  by (auto simp: keeps_def)

lemma node_at_Inr: "(node_at h a = Inr n) = (a < length h \<and> n = h ! a)"
  by (auto simp: node_at_def)

lemma keeps_alloc_obj: "keeps h (h @ [n])"
  by (auto simp: keeps_def subtype_at_def nth_append)

lemma keeps_update:
  assumes "a < length h"
    and "\<And>t. subtype_at h a = Some t \<Longrightarrow> (case n of Arr t' es ps \<Rightarrow> t' | Obj ps \<Rightarrow> None) = Some t"
  shows "keeps h (h[a := n])"
  using assms by (auto simp: keeps_def subtype_at_def nth_list_update)

lemma keeps_set_prop: "set_prop h x k v = Inr h' \<Longrightarrow> keeps h h'"
  by (cases x)
     (auto simp: set_prop_def ebind_Inr_iff node_at_Inr with_props_def subtype_at_def
           split: if_splits node.splits intro!: keeps_update)

lemma keeps_push_elem: "push_elem h x v = Inr h' \<Longrightarrow> keeps h h'"
  by (cases x)
     (auto simp: push_elem_def ebind_Inr_iff node_at_Inr subtype_at_def
           split: if_splits node.splits intro!: keeps_update)

lemma keeps_assignType: "assignType h x t = Inr h' \<Longrightarrow> keeps h h'"
  by (cases x)
     (auto simp: assignType_def ebind_Inr_iff node_at_Inr subtype_at_def
           split: if_splits node.splits intro!: keeps_update)

lemma keeps_setPath_loop: "setPath_loop h branch ks = Inr (h', b) \<Longrightarrow> keeps h h'"
proof (induction ks arbitrary: h branch)
  case Nil
  then show ?case by (simp add: keeps_refl)
next
  case (Cons k ks)
  from Cons.prems obtain present replace h1 nxt where
    h1: "(if replace then (let (h0, fresh) = alloc h (Obj []) in set_prop h0 branch k fresh)
          else Inr h) = Inr h1"
    and rest: "setPath_loop h1 nxt ks = Inr (h', b)"
    by (auto simp: ebind_Inr_iff)
  have "keeps h h1"
  proof (cases replace)
    case True
    with h1 have "set_prop (h @ [Obj []]) branch k (Ref (length h)) = Inr h1"
      by (simp add: alloc_def)
    then have "keeps (h @ [Obj []]) h1" by (rule keeps_set_prop)
    then show ?thesis using keeps_alloc_obj keeps_trans by blast
  next
    case False
    with h1 show ?thesis by (simp add: keeps_refl)
  qed
  moreover have "keeps h1 h'" using Cons.IH rest by blast
  ultimately show ?case by (rule keeps_trans)
qed

lemma keeps_setPath: "setPath opts h obj kp v = Inr (h', b) \<Longrightarrow> keeps h h'"
  unfolding setPath_def
  by (auto simp: ebind_Inr_iff Let_def split: option.splits
           dest!: keeps_setPath_loop keeps_set_prop intro: keeps_trans)

lemma keeps_new_record: "new_record h ty v = (h1, r) \<Longrightarrow> keeps h h1"
  by (auto simp: new_record_def alloc_def keeps_alloc_obj)

lemma keeps_alloc: "alloc h n = (h1, r) \<Longrightarrow> keeps h h1"
  by (auto simp: alloc_def keeps_alloc_obj)

lemma keeps_addToArray: "addToArray opts h target k v = Inr h' \<Longrightarrow> keeps h h'"
proof -
  assume a: "addToArray opts h target k v = Inr h'"
  then obtain t where t: "get_type h target = Inr t"
    by (auto simp: addToArray_def ebind_Inr_iff)
  consider (free) "t = Some Freeform" | (simple) "t = Some Simple"
    | (std) "t \<noteq> Some Freeform" "t \<noteq> Some Simple"
    by blast
  then show ?thesis
  proof cases
    case free
    with a t show ?thesis
      by (auto simp: addToArray_def ebind_def split: option.splits prod.splits
               dest!: keeps_new_record keeps_push_elem intro: keeps_trans)
  next
    case simple
    with a t show ?thesis by (simp add: addToArray_def ebind_def keeps_refl)
  next
    case std
    with a t obtain h1 lst fresh h4 lst' b where
      h1: "(if t = None then assignType h target Standard else Inr h) = Inr h1"
      and h4: "(if fresh then
                  (let (h2, elem) = alloc h1 (Obj [])
                   in ebind (push_elem h2 target elem) (\<lambda>h3. Inr (h3, elem)))
                else Inr (h1, lst)) = Inr (h4, lst')"
      and h5: "setPath opts h4 lst' k (trim_if_string v) = Inr (h', b)"
      by (auto simp: addToArray_def ebind_Inr_iff)
    have k1: "keeps h h1" using h1 by (auto split: if_splits dest: keeps_assignType simp: keeps_refl)
    have k2: "keeps h1 h4" using h4
      by (auto split: if_splits prod.splits simp: ebind_Inr_iff keeps_refl
               dest!: keeps_alloc keeps_push_elem intro: keeps_trans)
    have k3: "keeps h4 h'" using h5 by (rule keeps_setPath)
    show ?thesis using k1 k2 k3 keeps_trans by blast
  qed
qed

lemma keeps_append: "append opts h target k v = Inr h' \<Longrightarrow> keeps h h'"
  by (auto simp: append_def ebind_Inr_iff split: if_splits
           dest: keeps_addToArray keeps_setPath)

lemma keeps_push_lines: "push_lines h target ls = Inr h' \<Longrightarrow> keeps h h'"
proof (induction ls arbitrary: h)
  case Nil
  then show ?case by (simp add: keeps_refl)
next
  case (Cons l ls)
  from Cons.prems obtain h1 r h2 where
    r: "new_record h (Str ''text'') (Str (trim l)) = (h1, r)"
    and p: "push_elem h1 target r = Inr h2"
    and rest: "push_lines h2 target ls = Inr h'"
    by (auto simp: ebind_Inr_iff split: prod.splits)
  have "keeps h h1" using r by (rule keeps_new_record)
  moreover have "keeps h1 h2" using p by (rule keeps_push_elem)
  moreover have "keeps h2 h'" using Cons.IH rest by blast
  ultimately show ?case using keeps_trans by blast
qed

lemma popContext_heap: "heap (snd (popContext s)) = heap s"
  by (simp add: popContext_def Let_def)

lemma closeArray_loop_heap: "closeArray_loop s = Inr s' \<Longrightarrow> heap s' = heap s"
proof (induction s rule: closeArray_loop.induct)
  case (1 s)
  show ?case
  proof (cases "is_array (heap s) (top_scope s)")
    case (Inl e)
    with 1(2) show ?thesis by (simp add: closeArray_loop.simps [of s])
  next
    case (Inr arr)
    show ?thesis
    proof (cases "\<not> arr \<and> top_scope s \<noteq> root")
      case True
      with Inr 1(2) have "closeArray_loop (snd (popContext s)) = Inr s'"
        by (simp add: closeArray_loop.simps [of s])
      with 1(1) [OF Inr True] show ?thesis by (simp add: popContext_heap)
    next
      case False
      with Inr 1(2) show ?thesis by (simp add: closeArray_loop.simps [of s])
    qed
  qed
qed

lemma closeArray_heap: "closeArray s = Inr s' \<Longrightarrow> heap s' = heap s"
  by (auto simp: closeArray_def ebind_Inr_iff popContext_heap split: if_splits
           dest: closeArray_loop_heap)

lemma closeObject_heap: "closeObject s = Inr s' \<Longrightarrow> heap s' = heap s"
  by (auto simp: closeObject_def popContext_heap)

lemma getTarget_heap: "getTarget k s = Inr (target, s1) \<Longrightarrow> heap s1 = heap s"
  by (auto simp: getTarget_def reset_def split: option.splits if_splits)

lemma keeps_value_instr: "value_instr opts k v s = Inr s' \<Longrightarrow> keeps (heap s) (heap s')"
  by (auto simp: value_instr_def Let_def ebind_Inr_iff keeps_refl
           split: option.splits if_splits prod.splits
           dest!: keeps_append keeps_new_record keeps_push_elem intro: keeps_trans)

lemma keeps_simple: "simple k v s = Inr s' \<Longrightarrow> keeps (heap s) (heap s')"
proof -
  assume a: "simple k v s = Inr s'"
  then obtain arr where arr: "is_array (heap s) (top_scope s) = Inr arr"
    by (auto simp: simple_def ebind_Inr_iff)
  show ?thesis
  proof (cases arr)
    case False
    with a arr show ?thesis by (simp add: simple_def ebind_def keeps_refl)
  next
    case True
    with a arr obtain t h2 t2 where
      h2: "(if t = Some Simple \<or> t = None then
              ebind (assignType (heap s) (top_scope s) Simple) (\<lambda>h1.
                case v of None \<Rightarrow> Inl (TypeError Read_of_undefined)
                | Some vs \<Rightarrow> push_elem h1 (top_scope s) (Str (trim vs)))
            else Inr (heap s)) = Inr h2"
      and fin: "(if t2 = Some Freeform then
                   (case js_add k v of None \<Rightarrow> Inl (TypeError Not_a_function)
                    | Some kv \<Rightarrow>
                        (let (h3, r) = new_record h2 (Str ''text'') (Str (trim kv))
                         in ebind (push_elem h3 (top_scope s) r) (\<lambda>h4. Inr (s\<lparr>heap := h4\<rparr>))))
                 else Inr (s\<lparr>heap := h2\<rparr>)) = Inr s'"
      by (auto simp: simple_def ebind_Inr_iff)
    have k1: "keeps (heap s) h2" using h2
      by (auto simp: ebind_Inr_iff keeps_refl split: if_splits option.splits
               dest!: keeps_assignType keeps_push_elem intro: keeps_trans)
    have k2: "keeps h2 (heap s')" using fin
      by (auto simp: ebind_Inr_iff keeps_refl split: if_splits option.splits prod.splits
               dest!: keeps_new_record keeps_push_elem intro: keeps_trans)
    show ?thesis using k1 k2 by (rule keeps_trans)
  qed
qed

lemma keeps_object: "object opts k s = Inr s' \<Longrightarrow> keeps (heap s) (heap s')"
  by (auto simp: object_def ebind_Inr_iff pushContext_def alloc_def
           split: prod.splits if_splits
           dest!: getTarget_heap keeps_append intro: keeps_trans keeps_alloc_obj)

lemma keeps_array: "array opts k s = Inr s' \<Longrightarrow> keeps (heap s) (heap s')"
proof -
  assume a: "array opts k s = Inr s'"
  let ?h0 = "heap s @ [Arr None [] []]"
  from a obtain target s1 kp lst h1 h2 where
    g: "getTarget k (s\<lparr>heap := ?h0\<rparr>) = Inr (target, s1)"
    and h1: "(if lst \<noteq> [] \<and> hd lst = CHR ''+''
              then assignType (heap s1) (Ref (length (heap s))) Freeform else Inr (heap s1)) = Inr h1"
    and h2: "append opts h1 target k (Ref (length (heap s))) = Inr h2"
    and s': "s' = pushContext (Ref (length (heap s))) (s1\<lparr>heap := h2\<rparr>)"
    by (auto simp: array_def alloc_def ebind_Inr_iff split: option.splits)
  have e: "heap s1 = ?h0" using getTarget_heap [OF g] by simp
  have k0: "keeps (heap s) ?h0" by (rule keeps_alloc_obj)
  have k1: "keeps ?h0 h1" using h1 e
    by (auto split: if_splits dest: keeps_assignType simp: keeps_refl)
  have k2: "keeps h1 h2" using h2 by (rule keeps_append)
  have "heap s' = h2" using s' by (simp add: pushContext_def)
  then show ?thesis using k0 k1 k2 keeps_trans by blast
qed

lemma keeps_buffer_instr: "buffer_instr k v s = Inr s' \<Longrightarrow> keeps (heap s) (heap s')"
  by (auto simp: buffer_instr_def Let_def ebind_Inr_iff keeps_refl
           split: option.splits if_splits dest!: keeps_push_lines)

lemma keeps_dispatch: "dispatch opts i s = Inr s' \<Longrightarrow> keeps (heap s) (heap s')"
  by (auto simp: dispatch_def Let_def flush_def skipped_def keeps_refl split: if_splits
           dest: keeps_simple keeps_buffer_instr keeps_value_instr keeps_object keeps_array
                 closeObject_heap closeArray_heap)

lemma keeps_assemble_loop:
  "fst (assemble_loop opts s tr ps) = Inr s' \<Longrightarrow> keeps (heap s) (heap s')"
proof (induction ps arbitrary: s tr)
  case Nil
  then show ?case by (simp add: keeps_refl)
next
  case (Cons i ps)
  from Cons.prems obtain s1 tr1 where
    d: "dispatch opts i s = Inr s1" and r: "fst (assemble_loop opts s1 tr1 ps) = Inr s'"
    by (auto simp: Let_def split: sum.splits)
  have "keeps (heap s) (heap s1)" using d by (rule keeps_dispatch)
  moreover have "keeps (heap s1) (heap s')" using Cons.IH r by blast
  ultimately show ?case by (rule keeps_trans)
qed

text \<open>
  Claim C3. Once the array at an index of the store has a subtype (Standard, Simple or
  Freeform), it has the same subtype after any further processed instructions,
  whatever their kinds and whatever state they start from. The subtype is assigned to
  a new array by \<open>array\<close> (Freeform, for a key whose last segment starts with +),
  or on the first insertion by \<open>simple\<close> or \<open>addToArray\<close>; \<open>assignType\<close> is only
  reached where no subtype is assigned or the same one is assigned again.
\<close>

theorem subtype_never_changes:
  "fst (assemble_loop opts s tr ps) = Inr s' \<Longrightarrow> subtype_at (heap s) a = Some t \<Longrightarrow>
   subtype_at (heap s') a = Some t"
  using keeps_assemble_loop [of opts s tr ps s'] by (simp add: keeps_def)

theorem subtype_never_changes_witness:
  "fst (assemble_loop (plain_options False) init []
         [ins ''array'' (Some ''tags'') None, ins ''simple'' None (Some ''red'')])
     = Inr \<lparr>heap = [Obj [(''tags'', Ref 1)], Arr (Some Simple) [Str ''red''] []],
             stack = [root, Ref 1]\<rparr>
   \<and> fst (assemble_loop (plain_options False)
           \<lparr>heap = [Obj [(''tags'', Ref 1)], Arr (Some Simple) [Str ''red''] []],
            stack = [root, Ref 1]\<rparr> []
           [ins ''value'' (Some ''.k'') (Some ''v''), ins ''simple'' None (Some ''green''),
            ins ''buffer'' None (Some ''text''), ins ''object'' (Some ''.o'') None,
            ins ''array'' (Some ''.+f'') None])
     = Inr \<lparr>heap = [Obj [(''tags'', Ref 1)], Arr (Some Simple) [Str ''red'', Str ''green''] [],
                     Obj [(''f'', Ref 3)], Arr (Some Freeform) [] []],
             stack = [root, Ref 1, Ref 2, Ref 3]\<rparr>
   \<and> subtype_at [Obj [(''tags'', Ref 1)], Arr (Some Simple) [Str ''red''] []] 1 = Some Simple
   \<and> subtype_at [Obj [(''tags'', Ref 1)], Arr (Some Simple) [Str ''red'', Str ''green''] [],
                   Obj [(''f'', Ref 3)], Arr (Some Freeform) [] []] 1 = Some Simple"
proof -
  let ?s0 = "\<lparr>heap = [Obj [(''tags'', Ref 1)], Arr (Some Simple) [Str ''red''] []],
             stack = [root, Ref 1]\<rparr>"
  let ?ps = "[ins ''value'' (Some ''.k'') (Some ''v''), ins ''simple'' None (Some ''green''),
              ins ''buffer'' None (Some ''text''), ins ''object'' (Some ''.o'') None,
              ins ''array'' (Some ''.+f'') None]"
  let ?s1 = "\<lparr>heap = [Obj [(''tags'', Ref 1)], Arr (Some Simple) [Str ''red'', Str ''green''] [],
                     Obj [(''f'', Ref 3)], Arr (Some Freeform) [] []],
             stack = [root, Ref 1, Ref 2, Ref 3]\<rparr>"
  have r0: "fst (assemble_loop (plain_options False) init []
         [ins ''array'' (Some ''tags'') None, ins ''simple'' None (Some ''red'')]) = Inr ?s0"
    by code_simp
  have r1: "fst (assemble_loop (plain_options False) ?s0 [] ?ps) = Inr ?s1"
    by code_simp
  have h: "subtype_at (heap ?s0) 1 = Some Simple"
    by (simp add: subtype_at_def)
  have "subtype_at (heap ?s1) 1 = Some Simple"
    using r1 h by (rule subtype_never_changes)
  then show ?thesis using r0 r1 h by simp
qed

subsection \<open>The context stack\<close>

lemma stack_ok_init: "stack_ok init"
  by (simp add: stack_ok_def init_def)

lemma stack_ok_heap_upd: "stack_ok (s\<lparr>heap := h\<rparr>) = stack_ok s"
  by (simp add: stack_ok_def)

lemma stack_ok_pop: "stack_ok s \<Longrightarrow> stack_ok (snd (popContext s))"
proof -
  assume ok: "stack_ok s"
  show ?thesis
  proof (cases "butlast (stack s) = []")
    case True
    then show ?thesis by (simp add: popContext_def Let_def stack_ok_def)
  next
    case False
    then have "hd (butlast (stack s)) = hd (stack s)"
      by (cases "stack s") (auto split: if_splits)
    then show ?thesis using ok False by (simp add: popContext_def Let_def stack_ok_def)
  qed
qed

lemma stack_ok_push: "stack_ok s \<Longrightarrow> stack_ok (pushContext x s)"
  by (simp add: pushContext_def stack_ok_def)

lemma stack_ok_getTarget: "getTarget k s = Inr (target, s1) \<Longrightarrow> stack_ok s \<Longrightarrow> stack_ok s1"
  by (auto simp: getTarget_def reset_def stack_ok_def split: option.splits if_splits)

lemma simple_stack: "simple k v s = Inr s' \<Longrightarrow> stack s' = stack s"
  by (auto simp: simple_def ebind_Inr_iff new_record_def alloc_def
           split: if_splits option.splits)

lemma value_instr_stack: "value_instr opts k v s = Inr s' \<Longrightarrow> stack s' = stack s"
  by (auto simp: value_instr_def Let_def ebind_Inr_iff new_record_def alloc_def
           split: if_splits option.splits)

lemma buffer_instr_stack: "buffer_instr k v s = Inr s' \<Longrightarrow> stack s' = stack s"
  by (auto simp: buffer_instr_def Let_def ebind_Inr_iff split: if_splits option.splits)

lemma stack_ok_object: "object opts k s = Inr s' \<Longrightarrow> stack_ok s \<Longrightarrow> stack_ok s'"
proof -
  assume a: "object opts k s = Inr s'" and ok: "stack_ok s"
  from a obtain target s1 h2 x where
    g: "getTarget k s = Inr (target, s1)"
    and s': "s' = pushContext x (s1\<lparr>heap := h2\<rparr>)"
    by (auto simp: object_def alloc_def ebind_Inr_iff split: if_splits)
  have "stack_ok s1" using g ok by (rule stack_ok_getTarget)
  then show ?thesis using s' by (simp add: stack_ok_push stack_ok_heap_upd)
qed

lemma stack_ok_array: "array opts k s = Inr s' \<Longrightarrow> stack_ok s \<Longrightarrow> stack_ok s'"
proof -
  assume a: "array opts k s = Inr s'" and ok: "stack_ok s"
  from a obtain target s1 h2 x where
    g: "getTarget k (s\<lparr>heap := heap s @ [Arr None [] []]\<rparr>) = Inr (target, s1)"
    and s': "s' = pushContext x (s1\<lparr>heap := h2\<rparr>)"
    by (auto simp: array_def alloc_def ebind_Inr_iff split: option.splits)
  have "stack_ok (s\<lparr>heap := heap s @ [Arr None [] []]\<rparr>)" using ok by (simp add: stack_ok_heap_upd)
  then have "stack_ok s1" using g stack_ok_getTarget by blast
  then show ?thesis using s' by (simp add: stack_ok_push stack_ok_heap_upd)
qed

lemma stack_ok_closeArray_loop: "closeArray_loop s = Inr s' \<Longrightarrow> stack_ok s \<Longrightarrow> stack_ok s'"
proof (induction s rule: closeArray_loop.induct)
  case (1 s)
  show ?case
  proof (cases "is_array (heap s) (top_scope s)")
    case (Inl e)
    with 1(2) show ?thesis by (simp add: closeArray_loop.simps [of s])
  next
    case (Inr arr)
    show ?thesis
    proof (cases "\<not> arr \<and> top_scope s \<noteq> root")
      case True
      with Inr 1(2) have "closeArray_loop (snd (popContext s)) = Inr s'"
        by (simp add: closeArray_loop.simps [of s])
      with 1(1) [OF Inr True] 1(3) show ?thesis by (simp add: stack_ok_pop)
    next
      case False
      with Inr 1(2) 1(3) show ?thesis by (simp add: closeArray_loop.simps [of s])
    qed
  qed
qed

lemma stack_ok_closeArray: "closeArray s = Inr s' \<Longrightarrow> stack_ok s \<Longrightarrow> stack_ok s'"
  by (auto simp: closeArray_def ebind_Inr_iff split: if_splits
           dest: stack_ok_closeArray_loop intro: stack_ok_pop)

lemma stack_ok_dispatch: "dispatch opts i s = Inr s' \<Longrightarrow> stack_ok s \<Longrightarrow> stack_ok s'"
proof -
  assume d: "dispatch opts i s = Inr s'" and ok: "stack_ok s"
  have same: "stack s' = stack s \<Longrightarrow> stack_ok s'" using ok by (simp add: stack_ok_def)
  from d show ?thesis
    by (auto simp: dispatch_def Let_def flush_def skipped_def closeObject_def ok
             split: if_splits
             intro: same stack_ok_pop [OF ok]
             dest: simple_stack value_instr_stack buffer_instr_stack
                   stack_ok_object [OF _ ok] stack_ok_array [OF _ ok] stack_ok_closeArray [OF _ ok])
qed

lemma stack_ok_assemble_loop:
  "fst (assemble_loop opts s tr ps) = Inr s' \<Longrightarrow> stack_ok s \<Longrightarrow> stack_ok s'"
proof (induction ps arbitrary: s tr)
  case Nil
  then show ?case by simp
next
  case (Cons i ps)
  from Cons.prems obtain s1 tr1 where
    d: "dispatch opts i s = Inr s1" and r: "fst (assemble_loop opts s1 tr1 ps) = Inr s'"
    by (auto simp: Let_def split: sum.splits)
  have "stack_ok s1" using d Cons.prems(2) by (rule stack_ok_dispatch)
  then show ?case using Cons.IH r by blast
qed

text \<open>Closing more arrays and objects than are open stops at the root.\<close>

lemma closing_past_the_root:
  "fst (assemble_loop (plain_options False) init []
         [ins ''object'' (Some ''a'') None, ins ''array'' (Some ''.b'') None,
          ins ''closeArray'' None None, ins ''closeArray'' None None,
          ins ''closeObject'' None None, ins ''closeObject'' None None])
     = Inr \<lparr>heap = [Obj [(''a'', Ref 1)], Obj [(''b'', Ref 2)], Arr None [] []],
             stack = [root]\<rparr>"
  by code_simp

text \<open>
  Claim C2. After any processed instructions that the second loop of \<open>assemble\<close> has
  handled from the initial state (any prefix of any processed stream is such a list),
  the context stack is not empty and its bottom element is the root. And
  \<open>popContext\<close> on a stack of one scope leaves the stack [root] and returns that
  scope.
\<close>

theorem context_stack_never_empty:
  "(fst (assemble_loop opts init tr ps) = Inr s \<longrightarrow> stack s \<noteq> [] \<and> hd (stack s) = root)
   \<and> (stack s0 = [x] \<and> truthy x \<longrightarrow> popContext s0 = (x, s0\<lparr>stack := [root]\<rparr>))"
proof -
  have a: "fst (assemble_loop opts init tr ps) = Inr s \<longrightarrow> stack s \<noteq> [] \<and> hd (stack s) = root"
    using stack_ok_assemble_loop [of opts init tr ps s] stack_ok_init by (auto simp: stack_ok_def)
  have b: "stack s0 = [x] \<and> truthy x \<longrightarrow> popContext s0 = (x, s0\<lparr>stack := [root]\<rparr>)"
    by (simp add: popContext_def top_scope_def Let_def)
  show ?thesis using a b by blast
qed

theorem context_stack_never_empty_witness:
  "fst (assemble_loop (plain_options False) init []
         [ins ''object'' (Some ''a'') None, ins ''array'' (Some ''.b'') None,
          ins ''closeArray'' None None, ins ''closeArray'' None None,
          ins ''closeObject'' None None, ins ''closeObject'' None None])
     = Inr \<lparr>heap = [Obj [(''a'', Ref 1)], Obj [(''b'', Ref 2)], Arr None [] []],
             stack = [root]\<rparr>
   \<and> stack \<lparr>heap = [Obj []], stack = [root]\<rparr> = [root] \<and> truthy root
   \<and> popContext \<lparr>heap = [Obj []], stack = [root]\<rparr>
       = (root, \<lparr>heap = [Obj []], stack = [root]\<rparr>)"
proof -
  have h: "stack \<lparr>heap = [Obj []], stack = [root]\<rparr> = [root] \<and> truthy root"
    by (simp add: truthy_def root_def)
  show ?thesis
    using closing_past_the_root h
      context_stack_never_empty
        [of "plain_options False" "[]"
            "[ins ''object'' (Some ''a'') None, ins ''array'' (Some ''.b'') None,
              ins ''closeArray'' None None, ins ''closeArray'' None None,
              ins ''closeObject'' None None, ins ''closeObject'' None None]"
            "\<lparr>heap = [Obj [(''a'', Ref 1)], Obj [(''b'', Ref 2)], Arr None [] []],
              stack = [root]\<rparr>"
            "\<lparr>heap = [Obj []], stack = [root]\<rparr>" root]
    by simp
qed

subsection \<open>Records in freeform arrays\<close>

lemma node_at_simp: "a < length h \<Longrightarrow> node_at h a = Inr (h ! a)"
  by (simp add: node_at_def)

lemma node_at_append: "a < length h \<Longrightarrow> node_at (h @ [n]) a = Inr (h ! a)"
  by (simp add: node_at_def nth_append)

text \<open>
  The two ways into a freeform array. \<open>addToArray\<close> (which the \<open>object\<close> and
  \<open>array\<close> handlers reach through \<open>append\<close>) pushes a record whose type is the key
  without its leading dots and plus signs. The freeform case of the \<open>value\<close> handler
  pushes a record itself and does not go through \<open>addToArray\<close>: the type of its
  record is the key as it is.
\<close>

lemma freeform_record_tags:
  "a < length h \<and> h ! a = Arr (Some Freeform) es ps \<longrightarrow>
     addToArray opts h (Ref a) (Some k) v
       = Inr ((h @ [Obj [(''type'', Str (strip_prefix k)), (''value'', trim_if_string v)]])
                [a := Arr (Some Freeform) (es @ [Ref (length h)]) ps])
     \<and> (top_scope s = Ref a \<and> heap s = h \<longrightarrow>
          value_instr opts (Some k) (Some x) s
            = Inr (s\<lparr>heap := (h @ [Obj [(''type'', Str k), (''value'', Str (trim x))]])
                                [a := Arr (Some Freeform) (es @ [Ref (length h)]) ps]\<rparr>))"
proof (intro impI conjI)
  assume p: "a < length h \<and> h ! a = Arr (Some Freeform) es ps"
  then have a: "a < length h" and n: "h ! a = Arr (Some Freeform) es ps" by simp_all
  have gt: "get_type h (Ref a) = Inr (Some Freeform)"
    using a n by (simp add: get_type_def node_at_simp ebind_def)
  show "addToArray opts h (Ref a) (Some k) v
       = Inr ((h @ [Obj [(''type'', Str (strip_prefix k)), (''value'', trim_if_string v)]])
                [a := Arr (Some Freeform) (es @ [Ref (length h)]) ps])"
    using a n gt
    by (simp add: addToArray_def ebind_def new_record_def alloc_def push_elem_def
                  node_at_append)
  assume q: "top_scope s = Ref a \<and> heap s = h"
  have ia: "is_array h (Ref a) = Inr True"
    using a n by (simp add: is_array_def node_at_simp ebind_def)
  show "value_instr opts (Some k) (Some x) s
            = Inr (s\<lparr>heap := (h @ [Obj [(''type'', Str k), (''value'', Str (trim x))]])
                                [a := Arr (Some Freeform) (es @ [Ref (length h)]) ps]\<rparr>)"
    using a n gt ia q
    by (simp add: value_instr_def Let_def ebind_def new_record_def alloc_def push_elem_def
                  node_at_append)
qed

lemma freeform_record_tags_example:
  "(1::nat) < length [Obj [(''notes'', Ref 1)], Arr (Some Freeform) [] []]
   \<and> [Obj [(''notes'', Ref 1)], Arr (Some Freeform) [] []] ! 1 = Arr (Some Freeform) [] []
   \<and> addToArray (plain_options False) [Obj [(''notes'', Ref 1)], Arr (Some Freeform) [] []]
        (Ref 1) (Some ''.+foo'') (Ref 0)
       = Inr [Obj [(''notes'', Ref 1)], Arr (Some Freeform) [Ref 2] [],
              Obj [(''type'', Str ''foo''), (''value'', Ref 0)]]
   \<and> top_scope \<lparr>heap = [Obj [(''notes'', Ref 1)], Arr (Some Freeform) [] []],
                 stack = [root, Ref 1]\<rparr> = Ref 1
   \<and> value_instr (plain_options False) (Some ''.+foo'') (Some '' x '')
        \<lparr>heap = [Obj [(''notes'', Ref 1)], Arr (Some Freeform) [] []], stack = [root, Ref 1]\<rparr>
       = Inr \<lparr>heap = [Obj [(''notes'', Ref 1)], Arr (Some Freeform) [Ref 2] [],
                       Obj [(''type'', Str ''.+foo''), (''value'', Str ''x'')]],
               stack = [root, Ref 1]\<rparr>"
proof -
  let ?h = "[Obj [(''notes'', Ref 1)], Arr (Some Freeform) [] []]"
  let ?s = "\<lparr>heap = ?h, stack = [root, Ref 1]\<rparr>"
  have h1: "(1::nat) < length ?h \<and> ?h ! 1 = Arr (Some Freeform) [] []" by simp
  have h2: "top_scope ?s = Ref 1 \<and> heap ?s = ?h" by (simp add: top_scope_def)
  have sp: "strip_prefix ''.+foo'' = ''foo''" by (simp add: strip_prefix_def)
  have tr: "trim '' x '' = ''x''" by (simp add: trim_def is_ws_def)
  show ?thesis
    using h1 h2
      freeform_record_tags [of 1 ?h "[]" "[]" "plain_options False" "''.+foo''" "Ref 0" ?s "'' x ''"]
    by (simp add: sp tr trim_if_string_def)
qed

text \<open>
  Claim C9. The claim is that a keyed value appended as a record to a freeform array
  has the key without its leading dots and plus signs as its type, through the
  \<open>value\<close> handler as well as through \<open>addToArray\<close>. \<open>addToArray\<close> does strip the
  key; the freeform case of the \<open>value\<close> handler, which tests for keys of the form
  \<open>.key\<close> and \<open>+.key\<close> just before, pushes the key unchanged. Here value(".foo", "x")
  in the freeform array notes stores the record {type: ".foo", value: "x"}, where the
  stripped key is foo; object(".foo") in the same array stores a record of type foo.
\<close>

theorem value_keeps_prefix_in_freeform:
  "fst (assemble (plain_options False)
         [ins ''array'' (Some ''+notes'') None, ins ''value'' (Some ''.foo'') (Some ''x'')])
     = Inr \<lparr>heap = [Obj [(''notes'', Ref 1)], Arr (Some Freeform) [Ref 2] [],
                     Obj [(''type'', Str ''.foo''), (''value'', Str ''x'')]],
             stack = [root, Ref 1]\<rparr>
   \<and> strip_prefix ''.foo'' = ''foo''
   \<and> fst (assemble (plain_options False)
         [ins ''array'' (Some ''+notes'') None, ins ''object'' (Some ''.foo'') None])
     = Inr \<lparr>heap = [Obj [(''notes'', Ref 1)], Arr (Some Freeform) [Ref 3] [], Obj [],
                     Obj [(''type'', Str ''foo''), (''value'', Ref 2)]],
             stack = [root, Ref 1, Ref 2]\<rparr>"
  by code_simp

subsection \<open>The verbose option\<close>

lemma normalizeKeypath_verbose:
  "normalizeKeypath (opts\<lparr>verbose := b\<rparr>) k = normalizeKeypath opts k"
  by (cases k) (simp_all add: normalizeKeypath_def)

lemma getPath_verbose: "getPath (opts\<lparr>verbose := b\<rparr>) = getPath opts"
  by (intro ext) (simp add: getPath_def normalizeKeypath_verbose cong del: if_weak_cong option.case_cong_weak prod.case_cong_weak)

lemma setPath_verbose: "setPath (opts\<lparr>verbose := b\<rparr>) = setPath opts"
  by (intro ext) (simp add: setPath_def normalizeKeypath_verbose cong del: if_weak_cong option.case_cong_weak prod.case_cong_weak)

lemma addToArray_verbose: "addToArray (opts\<lparr>verbose := b\<rparr>) = addToArray opts"
  by (intro ext) (simp add: addToArray_def getPath_verbose setPath_verbose cong del: if_weak_cong option.case_cong_weak prod.case_cong_weak)

lemma append_verbose: "append (opts\<lparr>verbose := b\<rparr>) = append opts"
  by (intro ext) (simp add: append_def addToArray_verbose setPath_verbose cong del: if_weak_cong option.case_cong_weak prod.case_cong_weak)

lemma dispatch_verbose: "dispatch (opts\<lparr>verbose := b\<rparr>) = dispatch opts"
  by (intro ext)
     (simp add: dispatch_def value_instr_def object_def array_def append_verbose
                getPath_verbose normalizeKeypath_verbose cong del: if_weak_cong option.case_cong_weak prod.case_cong_weak)

lemma assemble_loop_verbose:
  "fst (assemble_loop (opts\<lparr>verbose := b\<rparr>) s tr ps) = fst (assemble_loop opts s tr' ps)"
proof (induction ps arbitrary: s tr tr')
  case Nil
  then show ?case by simp
next
  case (Cons i ps)
  show ?case
  proof (cases "dispatch opts i s")
    case (Inl e)
    then show ?thesis by (simp add: dispatch_verbose Let_def)
  next
    case (Inr s1)
    then show ?thesis using Cons.IH by (simp add: dispatch_verbose Let_def)
  qed
qed

lemma preprocess_run_fold: "fst (preprocess_run v xs) = (foldl pre_step pre_init xs)\<lparr>processed := push_merged (foldl pre_step pre_init xs)\<rparr>"
  by (simp add: preprocess_run_def pre_finish_def pre_loop_fold)

lemma assemble_fst:
  "fst (assemble opts xs)
     = fst (assemble_loop opts init tr (push_merged (foldl pre_step pre_init xs)))"
proof -
  obtain st t where r: "preprocess_run (verbose opts) xs = (st, t)" by (cases "preprocess_run (verbose opts) xs")
  then have "st = fst (preprocess_run (verbose opts) xs)" by simp
  then have p: "processed st = push_merged (foldl pre_step pre_init xs)"
    by (simp add: preprocess_run_fold)
  have "fst (assemble_loop opts init t' (processed st)) = fst (assemble_loop opts init tr (processed st))" for t'
    using assemble_loop_verbose [where opts = opts and b = "verbose opts" and s = init
                                   and tr = t' and ps = "processed st" and tr' = tr] by simp
  then show ?thesis using r p by (simp add: assemble_def)
qed

text \<open>
  Claim C10. The option \<open>verbose\<close> changes what is printed and nothing else: with the
  same hooks, \<open>assemble\<close> returns the same result (the same store with the same
  document, the same context stack, or the same error) with \<open>verbose\<close> set and not
  set, and the processed instruction stream is the same.
\<close>

theorem verbose_has_no_effect:
  "fst (assemble (opts\<lparr>verbose := True\<rparr>) xs) = fst (assemble (opts\<lparr>verbose := False\<rparr>) xs)
   \<and> preprocess True xs = preprocess False xs"
proof -
  have "fst (assemble (opts\<lparr>verbose := b\<rparr>) xs)
          = fst (assemble_loop opts init [] (push_merged (foldl pre_step pre_init xs)))" for b
    using assemble_fst [of "opts\<lparr>verbose := b\<rparr>" xs "[]"]
          assemble_loop_verbose [where opts = opts and b = b and s = init and tr = "[]"
                                   and tr' = "[]"]
    by simp
  then show ?thesis by (simp add: preprocess_fold)
qed

subsection \<open>Instruction kinds without a handler\<close>

lemma dispatch_unknown:
  "itype i \<notin> set handler_names \<Longrightarrow> itype i \<notin> set other_members \<Longrightarrow>
   dispatch opts i s = Inl (TypeError Not_a_function)"
  by (simp add: dispatch_def handler_names_def Let_def)

lemma assemble_loop_unknown:
  "t \<in> set (map itype ps) \<Longrightarrow> t \<notin> set handler_names \<Longrightarrow> t \<notin> set other_members \<Longrightarrow>
   \<exists>e. fst (assemble_loop opts s tr ps) = Inl e"
proof (induction ps arbitrary: s tr)
  case Nil
  then show ?case by simp
next
  case (Cons i ps)
  show ?case
  proof (cases "dispatch opts i s")
    case (Inl e)
    then show ?thesis by (simp add: Let_def)
  next
    case (Inr s1)
    then have "itype i \<noteq> t" using dispatch_unknown [of i opts s] Cons.prems by auto
    then have "t \<in> set (map itype ps)" using Cons.prems(1) by auto
    then show ?thesis using Cons.IH Cons.prems Inr by (simp add: Let_def)
  qed
qed

lemma types_push_merged:
  "\<exists>q. map itype (push_merged st) = map itype (processed st) @ q"
  using push_merged_cases [of st] by auto

lemma map_itype_update: "map itype (xs[j := (xs ! j)\<lparr>ivalue := x\<rparr>]) = map itype xs"
proof (rule nth_equalityI)
  show "length (map itype (xs[j := (xs ! j)\<lparr>ivalue := x\<rparr>])) = length (map itype xs)"
    by simp
next
  fix i
  assume "i < length (map itype (xs[j := (xs ! j)\<lparr>ivalue := x\<rparr>]))"
  then have i: "i < length xs" by simp
  show "map itype (xs[j := (xs ! j)\<lparr>ivalue := x\<rparr>]) ! i = map itype xs ! i"
    using i by (cases "i = j") simp_all
qed

lemma types_flush: "\<exists>q. map itype (processed (flush_case st)) = map itype (processed st) @ q"
proof (cases "lastValue st")
  case None
  then show ?thesis by (simp add: flush_case_def Let_def)
next
  case (Some j)
  then show ?thesis by (simp add: flush_case_def Let_def map_itype_update)
qed

lemma types_step: "\<exists>q. map itype (processed (pre_step st i)) = map itype (processed st) @ q"
  using types_push_merged [of st] types_flush [of st]
  by (auto simp: pre_step_def)

lemma types_foldl:
  "\<exists>q. map itype (processed (foldl pre_step st xs)) = map itype (processed st) @ q"
proof (induction xs arbitrary: st)
  case Nil
  then show ?case by simp
next
  case (Cons i xs)
  from types_step [of st i] obtain q1 where
    "map itype (processed (pre_step st i)) = map itype (processed st) @ q1" by blast
  moreover from Cons.IH [of "pre_step st i"] obtain q2 where
    "map itype (processed (foldl pre_step (pre_step st i) xs))
       = map itype (processed (pre_step st i)) @ q2" by blast
  ultimately show ?case by simp
qed

lemma unknown_step:
  "itype i \<notin> set handler_names \<Longrightarrow> processed (pre_step st i) = processed st @ [i]"
  by (simp add: pre_step_def handler_names_def structural_def)

lemma unknown_survives:
  "i \<in> set xs \<Longrightarrow> itype i \<notin> set handler_names \<Longrightarrow>
   itype i \<in> set (map itype (processed (foldl pre_step st xs)))"
proof (induction xs arbitrary: st)
  case Nil
  then show ?case by simp
next
  case (Cons j xs)
  show ?case
  proof (cases "i = j")
    case True
    from types_foldl [of "pre_step st j" xs] obtain q where
      "map itype (processed (foldl pre_step (pre_step st j) xs))
         = map itype (processed (pre_step st j)) @ q" by blast
    then show ?thesis using True Cons.prems(2) by (simp add: unknown_step)
  next
    case False
    then show ?thesis using Cons by simp
  qed
qed

lemma unknown_in_preprocess:
  "i \<in> set xs \<Longrightarrow> itype i \<notin> set handler_names \<Longrightarrow>
   itype i \<in> set (map itype (preprocess v xs))"
proof -
  assume a: "i \<in> set xs" "itype i \<notin> set handler_names"
  from types_push_merged [of "foldl pre_step pre_init xs"] obtain q where
    "map itype (push_merged (foldl pre_step pre_init xs))
       = map itype (processed (foldl pre_step pre_init xs)) @ q" by blast
  then show ?thesis using unknown_survives [OF a, of pre_init] by (simp add: preprocess_fold)
qed

text \<open>
  Claim C4, as amended. The source has no error of its own for an unrecognized kind.
  An instruction whose kind names no member of the assembler passes the
  pre-processing pass (the default case of the switch pushes it), and the dispatch
  \<open>this[type](key, value)\<close> on it is a call of \<open>undefined\<close>, a TypeError. So
  \<open>assemble\<close> on a stream with such an instruction never returns a document: it ends
  in an error, the one of an earlier instruction or this TypeError.
\<close>

theorem unknown_kind_is_undefined_call:
  "i \<in> set xs \<Longrightarrow> itype i \<notin> set handler_names \<Longrightarrow> itype i \<notin> set other_members \<Longrightarrow>
   dispatch opts i s = Inl (TypeError Not_a_function)
   \<and> itype i \<in> set (map itype (preprocess (verbose opts) xs))
   \<and> (\<exists>e. fst (assemble opts xs) = Inl e)"
proof -
  assume a: "i \<in> set xs" and b: "itype i \<notin> set handler_names" and c: "itype i \<notin> set other_members"
  have p: "itype i \<in> set (map itype (preprocess (verbose opts) xs))"
    using a b by (rule unknown_in_preprocess)
  then have "itype i \<in> set (map itype (push_merged (foldl pre_step pre_init xs)))"
    by (simp add: preprocess_fold)
  then have "\<exists>e. fst (assemble_loop opts init [] (push_merged (foldl pre_step pre_init xs))) = Inl e"
    using b c by (rule assemble_loop_unknown)
  then have "\<exists>e. fst (assemble opts xs) = Inl e" by (simp add: assemble_fst [of opts xs "[]"])
  then show ?thesis using dispatch_unknown [OF b c] p by simp
qed

theorem unknown_kind_is_undefined_call_witness:
  "ins ''foo'' None None \<in> set [ins ''value'' (Some ''a'') (Some ''x''), ins ''foo'' None None]
   \<and> itype (ins ''foo'' None None) \<notin> set handler_names
   \<and> itype (ins ''foo'' None None) \<notin> set other_members
   \<and> dispatch (plain_options False) (ins ''foo'' None None) init = Inl (TypeError Not_a_function)
   \<and> (\<exists>e. fst (assemble (plain_options False)
                [ins ''value'' (Some ''a'') (Some ''x''), ins ''foo'' None None]) = Inl e)"
proof -
  have a: "ins ''foo'' None None \<in> set [ins ''value'' (Some ''a'') (Some ''x''), ins ''foo'' None None]"
    by simp
  have b: "itype (ins ''foo'' None None) \<notin> set handler_names"
    by (simp add: ins_def handler_names_def)
  have c: "itype (ins ''foo'' None None) \<notin> set other_members"
    by (simp add: ins_def other_members_def object_members_def)
  show ?thesis
    using a b c unknown_kind_is_undefined_call [OF a b c, of "plain_options False" init]
    by simp
qed

text \<open>
  Claim C4 as stated fails. The error is the TypeError of the undefined call; it is
  not raised at once, for the instructions before are carried out first (the document
  {a: "x"} is built before the dispatch of foo) and an earlier error wins.
\<close>

theorem unknown_kind_no_defined_error:
  "fst (assemble (plain_options False) [ins ''foo'' None None]) = Inl (TypeError Not_a_function)
   \<and> fst (assemble (plain_options False)
           [ins ''value'' (Some ''a'') (Some ''x''), ins ''object'' (Some ''a.b.c'') None,
            ins ''foo'' None None])
     = Inl (TypeError In_on_primitive)
   \<and> returned_document 2
       (fst (assemble_loop (plain_options False) init []
              (take 1 (preprocess False
                [ins ''value'' (Some ''a'') (Some ''x''), ins ''foo'' None None]))))
     = Some (DObj [(''a'', DStr ''x'')])"
  by code_simp

end
